theory Spec2Isabelle
  imports Main "HOL-Library.Word"
begin

section \<open>SizedQueue: a bounded FIFO that evicts its oldest element\<close>

text \<open>
  \<^verbatim>\<open>template <typename _tp, uint64_t _size> class SizedQueue\<close> wraps a
  \<^verbatim>\<open>std::queue<_tp> _q\<close>. The queue is the list of its elements, front first; the
  template parameter \<^verbatim>\<open>_size\<close> is a 64-bit word, and the
  \<^verbatim>\<open>static_assert(_size != 0)\<close> is the hypothesis \<open>N \<noteq> 0\<close> of the theorems.
  \<^verbatim>\<open>std::queue::pop\<close> on an empty queue is undefined; \<open>pop_front\<close> is only
  reached by \<open>emplace_back\<close> when the queue holds \<open>_size \<noteq> 0\<close> elements.
\<close>

type_synonym 'a sized_queue = "'a list"

definition sq_empty :: "'a sized_queue \<Rightarrow> bool" where
  "sq_empty q = (q = [])"

definition sq_size :: "'a sized_queue \<Rightarrow> nat" where
  "sq_size q = length q"

definition pop_front :: "'a sized_queue \<Rightarrow> 'a sized_queue" where
  "pop_front q = tl q"

definition emplace_back :: "64 word \<Rightarrow> 'a sized_queue \<Rightarrow> 'a \<Rightarrow> 'a sized_queue" where
  "emplace_back N q x = (let q' = (if sq_size q = unat N then pop_front q else q) in q' @ [x])"

definition push_back :: "64 word \<Rightarrow> 'a sized_queue \<Rightarrow> 'a \<Rightarrow> 'a sized_queue" where
  "push_back N q x = emplace_back N q x"

text \<open>A caller's insertion: either entry point, with the element it inserts.\<close>

datatype 'a insertion = PushBack 'a | EmplaceBack 'a

fun inserted :: "'a insertion \<Rightarrow> 'a" where
  "inserted (PushBack x) = x"
| "inserted (EmplaceBack x) = x"

fun insert_one :: "64 word \<Rightarrow> 'a sized_queue \<Rightarrow> 'a insertion \<Rightarrow> 'a sized_queue" where
  "insert_one N q (PushBack x) = push_back N q x"
| "insert_one N q (EmplaceBack x) = emplace_back N q x"

definition insert_all :: "64 word \<Rightarrow> 'a sized_queue \<Rightarrow> 'a insertion list \<Rightarrow> 'a sized_queue" where
  "insert_all N q ops = foldl (insert_one N) q ops"

section \<open>Shared vocabulary of the thread library\<close>

text \<open>
  Modelled from the spec: \<^verbatim>\<open>AlreadyRunningException\<close> is declared in
  \<^verbatim>\<open>common/Exception.hpp\<close>, which is not among the sources; it is the misuse error
  of the specification, raised at the call site.

  Exceptions are values. \<open>AlreadyRunningException\<close> is thrown by \<open>run()\<close>;
  \<open>WorkException\<close> stands for whatever a user-supplied \<^verbatim>\<open>__work\<close> throws,
  \<open>FutureError\<close> for the \<^verbatim>\<open>std::future_error\<close> of a promise satisfied twice,
  \<open>BrokenPromise\<close> for the one stored in the shared state of a promise that is
  destroyed unsatisfied.
\<close>

datatype error =
    AlreadyRunningException | WorkException string | FutureError | BrokenPromise

text \<open>
  The shared state of a \<^verbatim>\<open>std::promise\<close>/\<^verbatim>\<open>std::future\<close> pair: not yet
  satisfied, holding a value, or holding an exception. The library only ever calls
  \<^verbatim>\<open>set_value\<close>; \<open>Failed\<close> is what \<^verbatim>\<open>set_exception\<close> would store.
\<close>

datatype 'a promise = Pending | Ready 'a | Failed error

text \<open>
  What a run does to the process as a whole: an exception that leaves the function of a
  \<^verbatim>\<open>std::thread\<close> calls \<^verbatim>\<open>std::terminate\<close>; indexing an empty vector,
  dereferencing a null pointer and using an object that is being destroyed (its
  derived part, with the override of \<^verbatim>\<open>__work\<close>, and its members are gone) are
  undefined behaviour. Either ends the model's account of the run.
\<close>

datatype fault = Uncaught error | UndefinedBehaviour

text \<open>
  Modelled from the spec: the macro \<^verbatim>\<open>_ERROR_\<close> comes from
  \<^verbatim>\<open>common/logging/Logger.hpp\<close>, which is not among the sources; it is the logging
  sink that the specification says is invoked on a scheduling failure, with the error
  code it is given.

  The calls that leave the process: the scheduling system call and the error log.
\<close>

datatype 'p effect = SysSetPriority 'p | LogError int

text \<open>
  The platform. \<open>'p\<close> is \<^verbatim>\<open>Thread::Priority\<close> (an enumerator under WIN32, a pair of
  policy and level under LINUX); its values come from system headers outside the
  repository, so the default priority, the value returned by the scheduling call
  (\<^verbatim>\<open>SetThreadPriority\<close> or \<^verbatim>\<open>sched_setscheduler\<close>) and the error code
  (\<^verbatim>\<open>GetLastError()\<close> or \<^verbatim>\<open>errno\<close>) are parameters.
\<close>

record 'p platform =
  DEFAULT :: 'p
  sys_set_priority :: "'p \<Rightarrow> int"
  sys_errno :: int

text \<open>
  The two compiled variants differ in what the returned value means: WIN32's
  \<^verbatim>\<open>SetThreadPriority\<close> returns zero on failure, LINUX's
  \<^verbatim>\<open>sched_setscheduler\<close> returns zero on success and \<open>-1\<close> on failure.
\<close>

datatype os_kind = WIN32 | LINUX

fun sys_call_failed :: "os_kind \<Rightarrow> int \<Rightarrow> bool" where
  "sys_call_failed WIN32 ret = (ret = 0)"
| "sys_call_failed LINUX ret = (ret \<noteq> 0)"

section \<open>ThreadDetail: the handle of one OS thread\<close>

text \<open>
  \<open>joinable\<close> is \<^verbatim>\<open>_thread.joinable()\<close>: false for the default-constructed
  \<^verbatim>\<open>std::thread\<close>, true from \<open>start\<close> until \<open>join\<close> or \<open>detach\<close>.
\<close>

record 'p thread_detail =
  joinable :: bool
  td_promise :: "unit promise"
  td_priority :: 'p
  td_name :: string

text \<open>
  Modelled from the spec: \<^verbatim>\<open>Thread::create()\<close> is inherited from
  \<^verbatim>\<open>Factory<Thread>\<close> (\<^verbatim>\<open>common/Factory.hpp\<close>, not among the sources), the
  generic factory of the specification; it is taken to return what
  \<^verbatim>\<open>Thread::__create\<close> returns, a new \<open>ThreadDetail\<close> behind a shared pointer
  whose deleter joins and then deletes.
\<close>

definition td_create :: "'p platform \<Rightarrow> 'p thread_detail" where
  "td_create os = \<lparr>joinable = False, td_promise = Pending, td_priority = DEFAULT os, td_name = []\<rparr>"

text \<open>
  \<^verbatim>\<open>set_priority\<close>: both variants test \<^verbatim>\<open>false == <call>\<close>, which holds exactly
  when the call returned zero. The result is the returned flag, the handle and the
  effects performed.
\<close>

definition td_set_priority ::
  "'p platform \<Rightarrow> 'p \<Rightarrow> 'p thread_detail \<Rightarrow> bool \<times> 'p thread_detail \<times> 'p effect list" where
  "td_set_priority os priority th =
     (if joinable th = False then (True, th\<lparr>td_priority := priority\<rparr>, [])
      else if priority \<noteq> DEFAULT os then
        (if 0 = sys_set_priority os priority
         then (False, th, [SysSetPriority priority, LogError (sys_errno os)])
         else (True, th\<lparr>td_priority := priority\<rparr>, [SysSetPriority priority]))
      else (True, th, []))"

definition td_get_priority :: "'p thread_detail \<Rightarrow> 'p" where
  "td_get_priority th = td_priority th"

definition td_set_name :: "string \<Rightarrow> 'p thread_detail \<Rightarrow> 'p thread_detail" where
  "td_set_name name th = th\<lparr>td_name := name\<rparr>"

definition td_get_name :: "'p thread_detail \<Rightarrow> string" where
  "td_get_name th = td_name th"

text \<open>
  \<open>start\<close> spawns the thread; the spawned function is run by the thread steps below:
  first \<open>td_prologue\<close> (\<^verbatim>\<open>set_priority(_priority); set_name(_name);\<close>), then the
  worker's loop, then \<open>td_epilogue\<close> (\<^verbatim>\<open>_promise.set_value()\<close>), which is reached only
  when the loop returns.

  In \<^verbatim>\<open>_thread = std::thread(...)\<close> the thread exists before \<^verbatim>\<open>_thread\<close> is
  assigned, so its prologue runs in one of two orders. After the assignment it finds
  the handle joinable (\<open>td_prologue\<close> on the started handle, the thread's ordinary
  step). Before the assignment \<^verbatim>\<open>_thread.joinable()\<close> is still false and
  \<^verbatim>\<open>set_priority\<close> takes the branch of a thread that has not started
  (\<open>td_prologue_unassigned\<close>, the event of an early prologue); the assignment follows.
\<close>

definition td_start :: "'p thread_detail \<Rightarrow> 'p thread_detail" where
  "td_start th = th\<lparr>joinable := True\<rparr>"

definition td_prologue :: "'p platform \<Rightarrow> 'p thread_detail \<Rightarrow> 'p thread_detail \<times> 'p effect list" where
  "td_prologue os th =
     (case td_set_priority os (td_priority th) th of
        (ok, th', eff) \<Rightarrow> (td_set_name (td_name th') th', eff))"

definition td_prologue_unassigned ::
  "'p platform \<Rightarrow> 'p thread_detail \<Rightarrow> 'p thread_detail \<times> 'p effect list" where
  "td_prologue_unassigned os th =
     (case td_prologue os (th\<lparr>joinable := False\<rparr>) of
        (th', eff) \<Rightarrow> (th'\<lparr>joinable := joinable th\<rparr>, eff))"

definition td_epilogue :: "'p thread_detail \<Rightarrow> 'p thread_detail" where
  "td_epilogue th = th\<lparr>td_promise := Ready ()\<rparr>"

definition td_detach :: "'p thread_detail \<Rightarrow> 'p thread_detail" where
  "td_detach th = th\<lparr>joinable := False\<rparr>"

text \<open>
  \<open>join\<close> waits for the thread when the handle is joinable: given whether the thread is
  still alive it returns \<open>None\<close> while it must wait.
\<close>

definition td_join :: "bool \<Rightarrow> 'p thread_detail \<Rightarrow> 'p thread_detail option" where
  "td_join alive th =
     (if joinable th then (if alive then None else Some (th\<lparr>joinable := False\<rparr>))
      else Some th)"

text \<open>
  A caller of \<open>run()\<close> or of the destructor can be held inside the deleter installed by
  \<^verbatim>\<open>Thread::__create\<close> (\<^verbatim>\<open>obj->join(); delete obj;\<close>), which runs when the
  worker's \<^verbatim>\<open>_t\<close> lets go of a handle. The handle being released is then no longer
  \<^verbatim>\<open>_t\<close>, but it is still the handle of the live thread.
\<close>

datatype 'p caller =
    NoCall
  | RunJoining "'p thread_detail"
  | DestroyJoining "'p thread_detail"
  | Destroyed

text \<open>
  The destructor of a worker is the implicit one. It destroys the derived part first,
  then the members in the reverse of their declaration; \<^verbatim>\<open>_t\<close> is declared first
  and so released last. From the start of the destructor the object is being destroyed.
\<close>

fun destructing :: "'p caller \<Rightarrow> bool" where
  "destructing (DestroyJoining th) = True"
| "destructing Destroyed = True"
| "destructing NoCall = False"
| "destructing (RunJoining old) = False"

text \<open>The result of a call: an exception, a return, or a caller held in \<open>join\<close>.\<close>

datatype 's outcome = Raised error | Returned 's | Held 's

fun is_held :: "'s outcome \<Rightarrow> bool" where
  "is_held (Held s) = True"
| "is_held (Returned s) = False"
| "is_held (Raised e) = False"

fun state_after :: "'s \<Rightarrow> 's outcome \<Rightarrow> 's" where
  "state_after s (Raised e) = s"
| "state_after s (Returned s') = s'"
| "state_after s (Held s') = s'"

section \<open>Runnable: the continuous worker\<close>

text \<open>
  The object's own members, the members of the derived class that \<^verbatim>\<open>__work\<close>
  reads and writes (\<open>r_members\<close>), and the part of the run that is not a member: where
  the spawned thread stands (\<open>r_pc\<close>), a caller held in a deleter (\<open>r_caller\<close>), the
  fate of the process (\<open>r_fault\<close>) and the effects performed (\<open>r_trace\<close>).
\<close>

datatype rpc = RNotStarted | RPrologue | RLoopHead | RInWork | RExited

fun r_alive :: "rpc \<Rightarrow> bool" where
  "r_alive RPrologue = True"
| "r_alive RLoopHead = True"
| "r_alive RInWork = True"
| "r_alive RNotStarted = False"
| "r_alive RExited = False"

record ('w, 'p) runnable =
  r_t :: "'p thread_detail option"
  r_running :: bool
  r_priority :: 'p
  r_name :: string
  r_members :: 'w
  r_pc :: rpc
  r_caller :: "'p caller"
  r_fault :: "fault option"
  r_trace :: "'p effect list"

definition r_init :: "'p platform \<Rightarrow> 'w \<Rightarrow> ('w, 'p) runnable" where
  "r_init os w =
     \<lparr>r_t = None, r_running = False, r_priority = DEFAULT os, r_name = [], r_members = w,
      r_pc = RNotStarted, r_caller = NoCall, r_fault = None, r_trace = []\<rparr>"

text \<open>
  The rest of \<open>run()\<close> once \<^verbatim>\<open>_t\<close> holds the new handle:
  \<^verbatim>\<open>_t->set_priority(_priority); _t->set_name(_name); return _t->start(...)\<close>.
\<close>

definition r_spawn :: "'p platform \<Rightarrow> ('w, 'p) runnable \<Rightarrow> ('w, 'p) runnable" where
  "r_spawn os r =
     (case r_t r of
        None \<Rightarrow> r\<lparr>r_fault := Some UndefinedBehaviour\<rparr>
      | Some th \<Rightarrow>
          (case td_set_priority os (r_priority r) th of
             (ok, th', eff) \<Rightarrow>
               r\<lparr>r_t := Some (td_start (td_set_name (r_name r) th')),
                  r_pc := RPrologue, r_trace := r_trace r @ eff\<rparr>))"

text \<open>
  \<open>run()\<close>. The test and the store of the flag are one step (two calls that race each
  other are not modelled). The assignment \<^verbatim>\<open>_t = Thread::create()\<close> releases the
  handle of an earlier run, whose deleter joins: while that thread is alive the caller
  is held, with the flag already stored and \<^verbatim>\<open>_t\<close> already the new handle.
\<close>

definition r_run :: "'p platform \<Rightarrow> ('w, 'p) runnable \<Rightarrow> ('w, 'p) runnable outcome" where
  "r_run os r =
     (if r_running r then Raised AlreadyRunningException
      else
        (let r1 = r\<lparr>r_running := True, r_t := Some (td_create os)\<rparr> in
         case r_t r of
           None \<Rightarrow> Returned (r_spawn os r1)
         | Some old \<Rightarrow>
             (case td_join (r_alive (r_pc r)) old of
                None \<Rightarrow> Held (r1\<lparr>r_caller := RunJoining old\<rparr>)
              | Some joined \<Rightarrow> Returned (r_spawn os r1))))"

definition r_stop :: "('w, 'p) runnable \<Rightarrow> ('w, 'p) runnable" where
  "r_stop r = r\<lparr>r_running := False\<rparr>"

definition r_status :: "('w, 'p) runnable \<Rightarrow> bool" where
  "r_status r = r_running r"

definition r_set_priority ::
  "'p platform \<Rightarrow> 'p \<Rightarrow> ('w, 'p) runnable \<Rightarrow> bool \<times> ('w, 'p) runnable" where
  "r_set_priority os priority r =
     (let r1 = r\<lparr>r_priority := priority\<rparr> in
      if r_running r1 then
        (case r_t r1 of
           None \<Rightarrow> (False, r1\<lparr>r_fault := Some UndefinedBehaviour\<rparr>)
         | Some th \<Rightarrow>
             (case td_set_priority os priority th of
                (ok, th', eff) \<Rightarrow> (ok, r1\<lparr>r_t := Some th', r_trace := r_trace r1 @ eff\<rparr>)))
      else (False, r1))"

definition r_get_priority :: "('w, 'p) runnable \<Rightarrow> 'p" where
  "r_get_priority r = r_priority r"

definition r_set_name :: "string \<Rightarrow> ('w, 'p) runnable \<Rightarrow> ('w, 'p) runnable" where
  "r_set_name name r =
     (let r1 = r\<lparr>r_name := name\<rparr> in
      if r_running r1 then
        (case r_t r1 of
           None \<Rightarrow> r1\<lparr>r_fault := Some UndefinedBehaviour\<rparr>
         | Some th \<Rightarrow> r1\<lparr>r_t := Some (td_set_name name th)\<rparr>)
      else r1)"

definition r_get_name :: "('w, 'p) runnable \<Rightarrow> string" where
  "r_get_name r = r_name r"

text \<open>
  The destructor: the derived part and the members \<^verbatim>\<open>_name\<close>,
  \<^verbatim>\<open>_priority\<close>, \<^verbatim>\<open>_running\<close> are destroyed, then \<^verbatim>\<open>_t\<close> is released and
  the deleter joins before it frees the handle. Nothing clears the flag. A thread that
  is in the work step when the destructor starts runs on an object that is being
  destroyed (\<open>r_destroy_object\<close>); so does one that enters the work step afterwards,
  where the call is to the pure virtual \<^verbatim>\<open>__work\<close> (\<open>r_thread_step\<close> below).
\<close>

definition r_destroy_object :: "('w, 'p) runnable \<Rightarrow> ('w, 'p) runnable" where
  "r_destroy_object r =
     (if r_pc r = RInWork then r\<lparr>r_fault := Some UndefinedBehaviour\<rparr> else r)"

definition r_destroy :: "('w, 'p) runnable \<Rightarrow> ('w, 'p) runnable outcome" where
  "r_destroy r =
     (let r1 = r_destroy_object r in
      case r_t r of
        None \<Rightarrow> Returned (r1\<lparr>r_caller := Destroyed\<rparr>)
      | Some th \<Rightarrow>
          (case td_join (r_alive (r_pc r)) th of
             None \<Rightarrow> Held (r1\<lparr>r_t := None, r_caller := DestroyJoining th\<rparr>)
           | Some joined \<Rightarrow> Returned (r1\<lparr>r_t := None, r_caller := Destroyed\<rparr>)))"

text \<open>A held caller goes on once the thread it joins has ended.\<close>

definition r_resume :: "'p platform \<Rightarrow> ('w, 'p) runnable \<Rightarrow> ('w, 'p) runnable" where
  "r_resume os r =
     (case r_caller r of
        RunJoining old \<Rightarrow>
          (case td_join (r_alive (r_pc r)) old of
             None \<Rightarrow> r
           | Some joined \<Rightarrow> r_spawn os (r\<lparr>r_caller := NoCall\<rparr>))
      | DestroyJoining th \<Rightarrow>
          (case td_join (r_alive (r_pc r)) th of
             None \<Rightarrow> r
           | Some joined \<Rightarrow> r\<lparr>r_caller := Destroyed\<rparr>)
      | NoCall \<Rightarrow> r
      | Destroyed \<Rightarrow> r)"

text \<open>
  The handle the live thread belongs to (\<^verbatim>\<open>this\<close> in the function that
  \<open>ThreadDetail::start\<close> spawns): the one a held caller is releasing, else \<^verbatim>\<open>_t\<close>.
\<close>

definition r_own_handle :: "('w, 'p) runnable \<Rightarrow> 'p thread_detail option" where
  "r_own_handle r =
     (case r_caller r of
        RunJoining old \<Rightarrow> Some old
      | DestroyJoining th \<Rightarrow> Some th
      | NoCall \<Rightarrow> r_t r
      | Destroyed \<Rightarrow> r_t r)"

definition r_set_own_handle :: "'p thread_detail \<Rightarrow> ('w, 'p) runnable \<Rightarrow> ('w, 'p) runnable" where
  "r_set_own_handle th r =
     (case r_caller r of
        RunJoining old \<Rightarrow> r\<lparr>r_caller := RunJoining th\<rparr>
      | DestroyJoining old \<Rightarrow> r\<lparr>r_caller := DestroyJoining th\<rparr>
      | NoCall \<Rightarrow> r\<lparr>r_t := Some th\<rparr>
      | Destroyed \<Rightarrow> r\<lparr>r_t := Some th\<rparr>)"

text \<open>
  The code of the spawned thread at its place, on an object that is not being
  destroyed. The thread's function is
  \<^verbatim>\<open>set_priority(_priority); set_name(_name); while(_running.load()) { __work(); }
  _promise.set_value();\<close>. The step at \<open>RInWork\<close> calls \<^verbatim>\<open>__work\<close>; nothing
  catches what it throws.
\<close>

definition r_thread_code ::
  "'p platform \<Rightarrow> ('w \<Rightarrow> error + 'w) \<Rightarrow> ('w, 'p) runnable \<Rightarrow> ('w, 'p) runnable" where
  "r_thread_code os work r =
     (case r_pc r of
        RNotStarted \<Rightarrow> r
      | RPrologue \<Rightarrow>
          (case r_own_handle r of
             None \<Rightarrow> r\<lparr>r_fault := Some UndefinedBehaviour\<rparr>
           | Some th \<Rightarrow>
               (case td_prologue os th of
                  (th', eff) \<Rightarrow>
                    (r_set_own_handle th' r)\<lparr>r_pc := RLoopHead, r_trace := r_trace r @ eff\<rparr>))
      | RLoopHead \<Rightarrow>
          (if r_running r then r\<lparr>r_pc := RInWork\<rparr>
           else
             (case r_own_handle r of
                None \<Rightarrow> r\<lparr>r_fault := Some UndefinedBehaviour\<rparr>
              | Some th \<Rightarrow> (r_set_own_handle (td_epilogue th) r)\<lparr>r_pc := RExited\<rparr>))
      | RInWork \<Rightarrow>
          (case work (r_members r) of
             Inl e \<Rightarrow> r\<lparr>r_fault := Some (Uncaught e)\<rparr>
           | Inr w' \<Rightarrow> r\<lparr>r_members := w', r_pc := RLoopHead\<rparr>)
      | RExited \<Rightarrow> r)"

text \<open>
  One step of the spawned thread. The handle and its promise outlive the join, so the
  prologue, the test of the flag and the epilogue go on as before while the object is
  being destroyed; the call of \<^verbatim>\<open>__work\<close> does not.
\<close>

definition r_thread_step ::
  "'p platform \<Rightarrow> ('w \<Rightarrow> error + 'w) \<Rightarrow> ('w, 'p) runnable \<Rightarrow> ('w, 'p) runnable" where
  "r_thread_step os work r =
     (if destructing (r_caller r) \<and> r_pc r = RInWork
      then r\<lparr>r_fault := Some UndefinedBehaviour\<rparr>
      else r_thread_code os work r)"

text \<open>The prologue of a thread that runs it before \<^verbatim>\<open>_thread\<close> is assigned.\<close>

definition r_early_prologue :: "'p platform \<Rightarrow> ('w, 'p) runnable \<Rightarrow> ('w, 'p) runnable" where
  "r_early_prologue os r =
     (case r_pc r of
        RPrologue \<Rightarrow>
          (case r_own_handle r of
             None \<Rightarrow> r\<lparr>r_fault := Some UndefinedBehaviour\<rparr>
           | Some th \<Rightarrow>
               (case td_prologue_unassigned os th of
                  (th', eff) \<Rightarrow>
                    (r_set_own_handle th' r)\<lparr>r_pc := RLoopHead, r_trace := r_trace r @ eff\<rparr>))
      | RNotStarted \<Rightarrow> r
      | RLoopHead \<Rightarrow> r
      | RInWork \<Rightarrow> r
      | RExited \<Rightarrow> r)"

text \<open>
  The run as a sequence of events: calls made by the threads that use the worker, and
  steps of the spawned thread. Nothing happens once the process is gone or the object
  destroyed; \<open>run()\<close> and the destructor are not called while a caller is held in
  \<open>run()\<close>; a call on an object that is being destroyed is undefined.
\<close>

datatype 'p r_event =
    RCallRun | RCallStop | RCallSetPriority 'p | RCallSetName string
  | RDestroy | RResume | RThreadStep | REarlyPrologue

fun r_is_call :: "'p r_event \<Rightarrow> bool" where
  "r_is_call RCallRun = True"
| "r_is_call RCallStop = True"
| "r_is_call (RCallSetPriority p) = True"
| "r_is_call (RCallSetName n) = True"
| "r_is_call RDestroy = True"
| "r_is_call RResume = False"
| "r_is_call RThreadStep = False"
| "r_is_call REarlyPrologue = False"

definition r_exec ::
  "'p platform \<Rightarrow> ('w \<Rightarrow> error + 'w) \<Rightarrow> ('w, 'p) runnable \<Rightarrow> 'p r_event \<Rightarrow> ('w, 'p) runnable" where
  "r_exec os work r ev =
     (if r_fault r \<noteq> None \<or> r_caller r = Destroyed then r
      else if destructing (r_caller r) \<and> r_is_call ev
      then r\<lparr>r_fault := Some UndefinedBehaviour\<rparr>
      else case ev of
        RCallRun \<Rightarrow> (if r_caller r = NoCall then state_after r (r_run os r) else r)
      | RCallStop \<Rightarrow> r_stop r
      | RCallSetPriority p \<Rightarrow> snd (r_set_priority os p r)
      | RCallSetName n \<Rightarrow> r_set_name n r
      | RDestroy \<Rightarrow> (if r_caller r = NoCall then state_after r (r_destroy r) else r)
      | RResume \<Rightarrow> r_resume os r
      | RThreadStep \<Rightarrow> r_thread_step os work r
      | REarlyPrologue \<Rightarrow> r_early_prologue os r)"

definition r_exec_all ::
  "'p platform \<Rightarrow> ('w \<Rightarrow> error + 'w) \<Rightarrow> ('w, 'p) runnable \<Rightarrow> 'p r_event list \<Rightarrow> ('w, 'p) runnable" where
  "r_exec_all os work r evs = foldl (r_exec os work) r evs"

section \<open>ActiveRunnable: the queued worker\<close>

text \<open>
  \<^verbatim>\<open>ActiveRunnable<DataType, ReturnType>\<close> with both types present; \<open>unit\<close> for
  either gives the \<^verbatim>\<open>void\<close> variants, whose loop bodies differ only in what they
  pass and store. A task is the pair of its data and its promise; the promises are
  objects shared with the futures handed out, kept in a store (\<open>ar_promises\<close>) and
  named by their index there. \<^verbatim>\<open>std::make_shared\<close> is allocation at the end of the
  store.

  The thread's places: \<open>Locking\<close> is between \<^verbatim>\<open>while(_running.load())\<close> and the
  acquisition of \<^verbatim>\<open>_notifyLock\<close>; \<open>Waiting\<close> is inside \<^verbatim>\<open>_cv.wait(lock)\<close>,
  the lock released; \<open>Woken\<close> is a wait that has been ended and has yet to take the lock
  again; \<open>Working\<close> holds the task removed from the queue, the lock released.
  Everything done under \<^verbatim>\<open>_notifyLock\<close> (by the thread, by \<open>notify\<close>, by
  \<open>stop\<close>) is one step.
\<close>

datatype 'd apc =
    NotStarted | Prologue | LoopHead | Locking | Waiting | Woken | Working 'd nat | Exited

fun ar_alive :: "'d apc \<Rightarrow> bool" where
  "ar_alive NotStarted = False"
| "ar_alive Exited = False"
| "ar_alive Prologue = True"
| "ar_alive LoopHead = True"
| "ar_alive Locking = True"
| "ar_alive Waiting = True"
| "ar_alive Woken = True"
| "ar_alive (Working d p) = True"

record ('d, 'r, 'w, 'p) active_runnable =
  ar_t :: "'p thread_detail option"
  ar_running :: bool
  ar_tasks :: "('d \<times> nat) list"
  ar_priority :: 'p
  ar_name :: string
  ar_members :: 'w
  ar_promises :: "'r promise list"
  ar_pc :: "'d apc"
  ar_caller :: "'p caller"
  ar_fault :: "fault option"
  ar_trace :: "'p effect list"

definition ar_init :: "'p platform \<Rightarrow> 'w \<Rightarrow> ('d, 'r, 'w, 'p) active_runnable" where
  "ar_init os w =
     \<lparr>ar_t = None, ar_running = False, ar_tasks = [], ar_priority = DEFAULT os, ar_name = [],
      ar_members = w, ar_promises = [], ar_pc = NotStarted, ar_caller = NoCall,
      ar_fault = None, ar_trace = []\<rparr>"

definition ar_spawn ::
  "'p platform \<Rightarrow> ('d, 'r, 'w, 'p) active_runnable \<Rightarrow> ('d, 'r, 'w, 'p) active_runnable" where
  "ar_spawn os s =
     (case ar_t s of
        None \<Rightarrow> s\<lparr>ar_fault := Some UndefinedBehaviour\<rparr>
      | Some th \<Rightarrow>
          (case td_set_priority os (ar_priority s) th of
             (ok, th', eff) \<Rightarrow>
               s\<lparr>ar_t := Some (td_start (td_set_name (ar_name s) th')),
                  ar_pc := Prologue, ar_trace := ar_trace s @ eff\<rparr>))"

definition ar_run ::
  "'p platform \<Rightarrow> ('d, 'r, 'w, 'p) active_runnable \<Rightarrow> ('d, 'r, 'w, 'p) active_runnable outcome" where
  "ar_run os s =
     (if ar_running s then Raised AlreadyRunningException
      else
        (let s1 = s\<lparr>ar_running := True, ar_t := Some (td_create os)\<rparr> in
         case ar_t s of
           None \<Rightarrow> Returned (ar_spawn os s1)
         | Some old \<Rightarrow>
             (case td_join (ar_alive (ar_pc s)) old of
                None \<Rightarrow> Held (s1\<lparr>ar_caller := RunJoining old\<rparr>)
              | Some joined \<Rightarrow> Returned (ar_spawn os s1))))"

text \<open>
  \<^verbatim>\<open>_cv.notify_one()\<close> ends the wait of the one thread that can be waiting, and is
  lost when that thread is not waiting.
\<close>

fun notify_one :: "'d apc \<Rightarrow> 'd apc" where
  "notify_one Waiting = Woken"
| "notify_one NotStarted = NotStarted"
| "notify_one Prologue = Prologue"
| "notify_one LoopHead = LoopHead"
| "notify_one Locking = Locking"
| "notify_one Woken = Woken"
| "notify_one (Working d p) = Working d p"
| "notify_one Exited = Exited"

text \<open>\<open>notify(data)\<close> returns the future, which is the name of the new promise.\<close>

definition ar_notify ::
  "'d \<Rightarrow> ('d, 'r, 'w, 'p) active_runnable \<Rightarrow> nat \<times> ('d, 'r, 'w, 'p) active_runnable" where
  "ar_notify data s =
     (let promise = length (ar_promises s) in
      (promise,
       s\<lparr>ar_promises := ar_promises s @ [Pending],
          ar_tasks := ar_tasks s @ [(data, promise)],
          ar_pc := notify_one (ar_pc s)\<rparr>))"

definition ar_stop :: "('d, 'r, 'w, 'p) active_runnable \<Rightarrow> ('d, 'r, 'w, 'p) active_runnable" where
  "ar_stop s = s\<lparr>ar_running := False, ar_pc := notify_one (ar_pc s)\<rparr>"

definition ar_status :: "('d, 'r, 'w, 'p) active_runnable \<Rightarrow> bool" where
  "ar_status s = ar_running s"

definition ar_set_priority ::
  "'p platform \<Rightarrow> 'p \<Rightarrow> ('d, 'r, 'w, 'p) active_runnable
     \<Rightarrow> bool \<times> ('d, 'r, 'w, 'p) active_runnable" where
  "ar_set_priority os priority s =
     (let s1 = s\<lparr>ar_priority := priority\<rparr> in
      if ar_running s1 then
        (case ar_t s1 of
           None \<Rightarrow> (False, s1\<lparr>ar_fault := Some UndefinedBehaviour\<rparr>)
         | Some th \<Rightarrow>
             (case td_set_priority os priority th of
                (ok, th', eff) \<Rightarrow> (ok, s1\<lparr>ar_t := Some th', ar_trace := ar_trace s1 @ eff\<rparr>)))
      else (False, s1))"

definition ar_get_priority :: "('d, 'r, 'w, 'p) active_runnable \<Rightarrow> 'p" where
  "ar_get_priority s = ar_priority s"

definition ar_set_name ::
  "string \<Rightarrow> ('d, 'r, 'w, 'p) active_runnable \<Rightarrow> ('d, 'r, 'w, 'p) active_runnable" where
  "ar_set_name name s =
     (let s1 = s\<lparr>ar_name := name\<rparr> in
      if ar_running s1 then
        (case ar_t s1 of
           None \<Rightarrow> s1\<lparr>ar_fault := Some UndefinedBehaviour\<rparr>
         | Some th \<Rightarrow> s1\<lparr>ar_t := Some (td_set_name name th)\<rparr>)
      else s1)"

definition ar_get_name :: "('d, 'r, 'w, 'p) active_runnable \<Rightarrow> string" where
  "ar_get_name s = ar_name s"

text \<open>
  The destructor: the derived part is destroyed, then \<^verbatim>\<open>_name\<close>,
  \<^verbatim>\<open>_priority\<close>, \<^verbatim>\<open>_tasks\<close>, \<^verbatim>\<open>_cv\<close>, \<^verbatim>\<open>_notifyLock\<close>,
  \<^verbatim>\<open>_running\<close>, and last \<^verbatim>\<open>_t\<close>, whose deleter joins. Nothing clears the flag.
  The queue owns the only \<^verbatim>\<open>shared_ptr\<close> to the promise of each queued task:
  destroying it destroys these promises, and a promise destroyed unsatisfied leaves
  \<^verbatim>\<open>broken_promise\<close> in its shared state. A thread that is in the work step or
  blocked in \<^verbatim>\<open>_cv.wait\<close> when the destructor starts is on an object that is
  being destroyed.
\<close>

definition break_promise :: "nat \<Rightarrow> 'r promise list \<Rightarrow> 'r promise list" where
  "break_promise promise ps =
     (if promise < length ps \<and> ps ! promise = Pending
      then ps[promise := Failed BrokenPromise] else ps)"

fun ar_inside_object :: "'d apc \<Rightarrow> bool" where
  "ar_inside_object Waiting = True"
| "ar_inside_object (Working d p) = True"
| "ar_inside_object NotStarted = False"
| "ar_inside_object Prologue = False"
| "ar_inside_object LoopHead = False"
| "ar_inside_object Locking = False"
| "ar_inside_object Woken = False"
| "ar_inside_object Exited = False"

definition ar_destroy_object ::
  "('d, 'r, 'w, 'p) active_runnable \<Rightarrow> ('d, 'r, 'w, 'p) active_runnable" where
  "ar_destroy_object s =
     s\<lparr>ar_tasks := [],
        ar_promises := fold break_promise (map snd (ar_tasks s)) (ar_promises s),
        ar_fault := (if ar_inside_object (ar_pc s) then Some UndefinedBehaviour else ar_fault s)\<rparr>"

definition ar_destroy ::
  "('d, 'r, 'w, 'p) active_runnable \<Rightarrow> ('d, 'r, 'w, 'p) active_runnable outcome" where
  "ar_destroy s =
     (let s1 = ar_destroy_object s in
      case ar_t s of
        None \<Rightarrow> Returned (s1\<lparr>ar_caller := Destroyed\<rparr>)
      | Some th \<Rightarrow>
          (case td_join (ar_alive (ar_pc s)) th of
             None \<Rightarrow> Held (s1\<lparr>ar_t := None, ar_caller := DestroyJoining th\<rparr>)
           | Some joined \<Rightarrow> Returned (s1\<lparr>ar_t := None, ar_caller := Destroyed\<rparr>)))"

definition ar_resume ::
  "'p platform \<Rightarrow> ('d, 'r, 'w, 'p) active_runnable \<Rightarrow> ('d, 'r, 'w, 'p) active_runnable" where
  "ar_resume os s =
     (case ar_caller s of
        RunJoining old \<Rightarrow>
          (case td_join (ar_alive (ar_pc s)) old of
             None \<Rightarrow> s
           | Some joined \<Rightarrow> ar_spawn os (s\<lparr>ar_caller := NoCall\<rparr>))
      | DestroyJoining th \<Rightarrow>
          (case td_join (ar_alive (ar_pc s)) th of
             None \<Rightarrow> s
           | Some joined \<Rightarrow> s\<lparr>ar_caller := Destroyed\<rparr>)
      | NoCall \<Rightarrow> s
      | Destroyed \<Rightarrow> s)"

definition ar_own_handle :: "('d, 'r, 'w, 'p) active_runnable \<Rightarrow> 'p thread_detail option" where
  "ar_own_handle s =
     (case ar_caller s of
        RunJoining old \<Rightarrow> Some old
      | DestroyJoining th \<Rightarrow> Some th
      | NoCall \<Rightarrow> ar_t s
      | Destroyed \<Rightarrow> ar_t s)"

definition ar_set_own_handle ::
  "'p thread_detail \<Rightarrow> ('d, 'r, 'w, 'p) active_runnable \<Rightarrow> ('d, 'r, 'w, 'p) active_runnable" where
  "ar_set_own_handle th s =
     (case ar_caller s of
        RunJoining old \<Rightarrow> s\<lparr>ar_caller := RunJoining th\<rparr>
      | DestroyJoining old \<Rightarrow> s\<lparr>ar_caller := DestroyJoining th\<rparr>
      | NoCall \<Rightarrow> s\<lparr>ar_t := Some th\<rparr>
      | Destroyed \<Rightarrow> s\<lparr>ar_t := Some th\<rparr>)"

text \<open>The loop is left: the spawned function goes on to \<^verbatim>\<open>_promise.set_value()\<close>.\<close>

definition ar_leave_loop ::
  "('d, 'r, 'w, 'p) active_runnable \<Rightarrow> ('d, 'r, 'w, 'p) active_runnable" where
  "ar_leave_loop s =
     (case ar_own_handle s of
        None \<Rightarrow> s\<lparr>ar_fault := Some UndefinedBehaviour\<rparr>
      | Some th \<Rightarrow> (ar_set_own_handle (td_epilogue th) s)\<lparr>ar_pc := Exited\<rparr>)"

text \<open>
  With the lock held, past the wait:
  \<^verbatim>\<open>if(!_running.load()) break; auto task = _tasks[0]; _tasks.erase(_tasks.begin());
  lock.unlock();\<close>. \<^verbatim>\<open>_tasks[0]\<close> on an empty vector is undefined.
\<close>

definition ar_take_task ::
  "('d, 'r, 'w, 'p) active_runnable \<Rightarrow> ('d, 'r, 'w, 'p) active_runnable" where
  "ar_take_task s =
     (if \<not> ar_running s then ar_leave_loop s
      else
        (case ar_tasks s of
           [] \<Rightarrow> s\<lparr>ar_fault := Some UndefinedBehaviour\<rparr>
         | task # rest \<Rightarrow> s\<lparr>ar_tasks := rest, ar_pc := Working (fst task) (snd task)\<rparr>))"

text \<open>
  The code of the spawned thread at its place, on an object that is not being
  destroyed. At \<open>Working\<close>:
  \<^verbatim>\<open>promise->set_value(this->__work(std::move(data)))\<close>, with nothing to catch what
  \<^verbatim>\<open>__work\<close> throws. \<^verbatim>\<open>set_value\<close> on a promise that is already satisfied
  throws \<^verbatim>\<open>std::future_error\<close>, which nothing catches either.
\<close>

definition ar_set_value ::
  "nat \<Rightarrow> 'r \<Rightarrow> ('d, 'r, 'w, 'p) active_runnable \<Rightarrow> ('d, 'r, 'w, 'p) active_runnable" where
  "ar_set_value promise v s =
     (if promise < length (ar_promises s) \<and> ar_promises s ! promise = Pending
      then s\<lparr>ar_promises := (ar_promises s)[promise := Ready v]\<rparr>
      else if promise < length (ar_promises s)
      then s\<lparr>ar_fault := Some (Uncaught FutureError)\<rparr>
      else s\<lparr>ar_fault := Some UndefinedBehaviour\<rparr>)"

definition ar_thread_code ::
  "'p platform \<Rightarrow> ('w \<Rightarrow> 'd \<Rightarrow> error + 'r \<times> 'w) \<Rightarrow> ('d, 'r, 'w, 'p) active_runnable
     \<Rightarrow> ('d, 'r, 'w, 'p) active_runnable" where
  "ar_thread_code os work s =
     (case ar_pc s of
        NotStarted \<Rightarrow> s
      | Prologue \<Rightarrow>
          (case ar_own_handle s of
             None \<Rightarrow> s\<lparr>ar_fault := Some UndefinedBehaviour\<rparr>
           | Some th \<Rightarrow>
               (case td_prologue os th of
                  (th', eff) \<Rightarrow>
                    (ar_set_own_handle th' s)\<lparr>ar_pc := LoopHead, ar_trace := ar_trace s @ eff\<rparr>))
      | LoopHead \<Rightarrow> (if ar_running s then s\<lparr>ar_pc := Locking\<rparr> else ar_leave_loop s)
      | Locking \<Rightarrow> (if ar_tasks s = [] then s\<lparr>ar_pc := Waiting\<rparr> else ar_take_task s)
      | Waiting \<Rightarrow> s
      | Woken \<Rightarrow> ar_take_task s
      | Working data promise \<Rightarrow>
          (case work (ar_members s) data of
             Inl e \<Rightarrow> s\<lparr>ar_fault := Some (Uncaught e)\<rparr>
           | Inr (v, w') \<Rightarrow> (ar_set_value promise v (s\<lparr>ar_members := w'\<rparr>))\<lparr>ar_pc := LoopHead\<rparr>)
      | Exited \<Rightarrow> s)"

text \<open>
  One step of the spawned thread. While the object is being destroyed the prologue,
  the test of the flag and the epilogue go on as before (the handle and its promise
  outlive the join); taking the lock, on a destroyed mutex to read a destroyed queue,
  and the call of \<^verbatim>\<open>__work\<close> do not.
\<close>

fun ar_touches_object :: "'d apc \<Rightarrow> bool" where
  "ar_touches_object Locking = True"
| "ar_touches_object Woken = True"
| "ar_touches_object (Working d p) = True"
| "ar_touches_object NotStarted = False"
| "ar_touches_object Prologue = False"
| "ar_touches_object LoopHead = False"
| "ar_touches_object Waiting = False"
| "ar_touches_object Exited = False"

definition ar_thread_step ::
  "'p platform \<Rightarrow> ('w \<Rightarrow> 'd \<Rightarrow> error + 'r \<times> 'w) \<Rightarrow> ('d, 'r, 'w, 'p) active_runnable
     \<Rightarrow> ('d, 'r, 'w, 'p) active_runnable" where
  "ar_thread_step os work s =
     (if destructing (ar_caller s) \<and> ar_touches_object (ar_pc s)
      then s\<lparr>ar_fault := Some UndefinedBehaviour\<rparr>
      else ar_thread_code os work s)"

text \<open>The prologue of a thread that runs it before \<^verbatim>\<open>_thread\<close> is assigned.\<close>

definition ar_early_prologue ::
  "'p platform \<Rightarrow> ('d, 'r, 'w, 'p) active_runnable \<Rightarrow> ('d, 'r, 'w, 'p) active_runnable" where
  "ar_early_prologue os s =
     (case ar_pc s of
        Prologue \<Rightarrow>
          (case ar_own_handle s of
             None \<Rightarrow> s\<lparr>ar_fault := Some UndefinedBehaviour\<rparr>
           | Some th \<Rightarrow>
               (case td_prologue_unassigned os th of
                  (th', eff) \<Rightarrow>
                    (ar_set_own_handle th' s)\<lparr>ar_pc := LoopHead, ar_trace := ar_trace s @ eff\<rparr>))
      | NotStarted \<Rightarrow> s
      | LoopHead \<Rightarrow> s
      | Locking \<Rightarrow> s
      | Waiting \<Rightarrow> s
      | Woken \<Rightarrow> s
      | Working data promise \<Rightarrow> s
      | Exited \<Rightarrow> s)"

text \<open>
  \<^verbatim>\<open>std::condition_variable::wait\<close> without a predicate may return although nobody
  notified (a spurious wakeup).
\<close>

definition ar_spurious_wake ::
  "('d, 'r, 'w, 'p) active_runnable \<Rightarrow> ('d, 'r, 'w, 'p) active_runnable" where
  "ar_spurious_wake s = s\<lparr>ar_pc := notify_one (ar_pc s)\<rparr>"

datatype ('d, 'p) event =
    CallRun | CallStop | CallNotify 'd | CallSetPriority 'p | CallSetName string
  | Destroy | Resume | ThreadStep | EarlyPrologue | SpuriousWake

fun is_call :: "('d, 'p) event \<Rightarrow> bool" where
  "is_call CallRun = True"
| "is_call CallStop = True"
| "is_call (CallNotify d) = True"
| "is_call (CallSetPriority p) = True"
| "is_call (CallSetName n) = True"
| "is_call Destroy = True"
| "is_call Resume = False"
| "is_call ThreadStep = False"
| "is_call EarlyPrologue = False"
| "is_call SpuriousWake = False"

definition ar_exec ::
  "'p platform \<Rightarrow> ('w \<Rightarrow> 'd \<Rightarrow> error + 'r \<times> 'w) \<Rightarrow> ('d, 'r, 'w, 'p) active_runnable
     \<Rightarrow> ('d, 'p) event \<Rightarrow> ('d, 'r, 'w, 'p) active_runnable" where
  "ar_exec os work s ev =
     (if ar_fault s \<noteq> None \<or> ar_caller s = Destroyed then s
      else if destructing (ar_caller s) \<and> is_call ev
      then s\<lparr>ar_fault := Some UndefinedBehaviour\<rparr>
      else case ev of
        CallRun \<Rightarrow> (if ar_caller s = NoCall then state_after s (ar_run os s) else s)
      | CallStop \<Rightarrow> ar_stop s
      | CallNotify d \<Rightarrow> snd (ar_notify d s)
      | CallSetPriority p \<Rightarrow> snd (ar_set_priority os p s)
      | CallSetName n \<Rightarrow> ar_set_name n s
      | Destroy \<Rightarrow> (if ar_caller s = NoCall then state_after s (ar_destroy s) else s)
      | Resume \<Rightarrow> ar_resume os s
      | ThreadStep \<Rightarrow> ar_thread_step os work s
      | EarlyPrologue \<Rightarrow> ar_early_prologue os s
      | SpuriousWake \<Rightarrow> ar_spurious_wake s)"

definition ar_exec_all ::
  "'p platform \<Rightarrow> ('w \<Rightarrow> 'd \<Rightarrow> error + 'r \<times> 'w) \<Rightarrow> ('d, 'r, 'w, 'p) active_runnable
     \<Rightarrow> ('d, 'p) event list \<Rightarrow> ('d, 'r, 'w, 'p) active_runnable" where
  "ar_exec_all os work s evs = foldl (ar_exec os work) s evs"

section \<open>Predicates and measures used in the proofs\<close>

text \<open>
  The handle of the live thread is joinable, and an object is destroyed only after its
  thread has ended.
\<close>

definition r_thread_joinable :: "('w, 'p) runnable \<Rightarrow> bool" where
  "r_thread_joinable r = (case r_own_handle r of None \<Rightarrow> False | Some th \<Rightarrow> joinable th)"

definition r_handle_inv :: "('w, 'p) runnable \<Rightarrow> bool" where
  "r_handle_inv r =
     ((r_alive (r_pc r) \<longrightarrow> r_thread_joinable r)
      \<and> (r_caller r = Destroyed \<longrightarrow> \<not> r_alive (r_pc r)))"

definition ar_thread_joinable :: "('d, 'r, 'w, 'p) active_runnable \<Rightarrow> bool" where
  "ar_thread_joinable s = (case ar_own_handle s of None \<Rightarrow> False | Some th \<Rightarrow> joinable th)"

definition ar_handle_inv :: "('d, 'r, 'w, 'p) active_runnable \<Rightarrow> bool" where
  "ar_handle_inv s =
     ((ar_alive (ar_pc s) \<longrightarrow> ar_thread_joinable s)
      \<and> (ar_caller s = Destroyed \<longrightarrow> \<not> ar_alive (ar_pc s)))"

definition ar_started :: "('d, 'r, 'w, 'p) active_runnable \<Rightarrow> bool" where
  "ar_started s = (case ar_t s of None \<Rightarrow> False | Some th \<Rightarrow> joinable th)"

text \<open>
  Every queued task has a promise of its own, still unsatisfied, and so has the task
  the thread holds.
\<close>

definition ar_promises_inv :: "('d, 'r, 'w, 'p) active_runnable \<Rightarrow> bool" where
  "ar_promises_inv s =
     (distinct (map snd (ar_tasks s))
      \<and> (\<forall>t \<in> set (ar_tasks s). snd t < length (ar_promises s) \<and> ar_promises s ! snd t = Pending)
      \<and> (case ar_pc s of
            Working d p \<Rightarrow>
              p < length (ar_promises s) \<and> ar_promises s ! p = Pending
              \<and> (\<forall>t \<in> set (ar_tasks s). p \<noteq> snd t)
          | _ \<Rightarrow> True))"

text \<open>
  While the object is being destroyed its queue is gone, and a thread that has not yet
  run on the destroyed object does not hold a task.
\<close>

definition ar_destruct_inv :: "('d, 'r, 'w, 'p) active_runnable \<Rightarrow> bool" where
  "ar_destruct_inv s =
     (destructing (ar_caller s) \<longrightarrow>
        ar_tasks s = [] \<and> (ar_fault s = None \<longrightarrow> (\<forall>d p. ar_pc s \<noteq> Working d p)))"

text \<open>
  A task left behind by a stopped worker: queued and not held by the thread while the
  object lives, its promise broken once the object is being destroyed.
\<close>

definition abandoned :: "'d \<times> nat \<Rightarrow> ('d, 'r, 'w, 'p) active_runnable \<Rightarrow> bool" where
  "abandoned t s =
     (\<not> ar_running s \<and> snd t < length (ar_promises s)
      \<and> (\<forall>d. ar_pc s \<noteq> Working d (snd t))
      \<and> (if destructing (ar_caller s) then ar_promises s ! snd t = Failed BrokenPromise
          else t \<in> set (ar_tasks s)))"

text \<open>
  The data submitted by a sequence of events, in order; the events of a producer and of
  the thread; the events of the documented use of a started worker.
\<close>

fun notified :: "('d, 'p) event list \<Rightarrow> 'd list" where
  "notified [] = []"
| "notified (CallNotify d # evs) = d # notified evs"
| "notified (ev # evs) = notified evs"

fun producer_or_thread :: "('d, 'p) event \<Rightarrow> bool" where
  "producer_or_thread (CallNotify d) = True"
| "producer_or_thread ThreadStep = True"
| "producer_or_thread EarlyPrologue = True"
| "producer_or_thread ev = False"

fun in_contract :: "('d, 'p) event \<Rightarrow> bool" where
  "in_contract CallStop = True"
| "in_contract (CallNotify d) = True"
| "in_contract (CallSetPriority p) = True"
| "in_contract (CallSetName n) = True"
| "in_contract ThreadStep = True"
| "in_contract EarlyPrologue = True"
| "in_contract CallRun = False"
| "in_contract Destroy = False"
| "in_contract Resume = False"
| "in_contract SpuriousWake = False"

text \<open>
  After the submissions \<open>ds\<close>, of which the first \<open>k\<close> have been answered: the tasks
  waiting in the queue and the promises, for a work step that returns its input.
\<close>

definition queued_from :: "'d list \<Rightarrow> nat \<Rightarrow> ('d \<times> nat) list" where
  "queued_from ds k = zip (drop k ds) [k..<length ds]"

definition resolved_upto :: "'d list \<Rightarrow> nat \<Rightarrow> 'd promise list" where
  "resolved_upto ds k = map Ready (take k ds) @ replicate (length ds - k) Pending"

definition fifo_inv :: "'d list \<Rightarrow> nat \<Rightarrow> ('d, 'd, 'w, 'p) active_runnable \<Rightarrow> bool" where
  "fifo_inv ds k s =
     (k \<le> length ds \<and> ar_running s \<and> ar_fault s = None \<and> ar_caller s = NoCall
      \<and> ar_started s \<and> ar_promises s = resolved_upto ds k
      \<and> (case ar_pc s of
            NotStarted \<Rightarrow> False
          | Exited \<Rightarrow> False
          | Working d p \<Rightarrow>
              k < length ds \<and> d = ds ! k \<and> p = k \<and> ar_tasks s = queued_from ds (Suc k)
          | Waiting \<Rightarrow> k = length ds \<and> ar_tasks s = []
          | Woken \<Rightarrow> k < length ds \<and> ar_tasks s = queued_from ds k
          | Prologue \<Rightarrow> ar_tasks s = queued_from ds k
          | LoopHead \<Rightarrow> ar_tasks s = queued_from ds k
          | Locking \<Rightarrow> ar_tasks s = queued_from ds k))"

text \<open>
  The number of steps the thread takes until it waits on an empty queue, while the
  worker runs and nothing is submitted.
\<close>

definition steps_left :: "('d, 'r, 'w, 'p) active_runnable \<Rightarrow> nat" where
  "steps_left s =
     (case ar_pc s of
        NotStarted \<Rightarrow> 0
      | Exited \<Rightarrow> 0
      | Waiting \<Rightarrow> 0
      | Prologue \<Rightarrow> 3 * length (ar_tasks s) + 3
      | LoopHead \<Rightarrow> 3 * length (ar_tasks s) + 2
      | Locking \<Rightarrow> 3 * length (ar_tasks s) + 1
      | Woken \<Rightarrow> 3 * length (ar_tasks s) + 1
      | Working d p \<Rightarrow> 3 * length (ar_tasks s) + 3)"

text \<open>
  What the documented use preserves: no caller is held, the thread has been started, a
  wait that has been ended finds a task unless the worker was stopped, and nothing
  undefined has been executed.
\<close>

definition ar_contract_inv :: "('d, 'r, 'w, 'p) active_runnable \<Rightarrow> bool" where
  "ar_contract_inv s =
     (ar_caller s = NoCall \<and> ar_started s
      \<and> (ar_pc s = Woken \<and> ar_running s \<longrightarrow> ar_tasks s \<noteq> [])
      \<and> ar_promises_inv s
      \<and> ar_fault s \<noteq> Some UndefinedBehaviour)"

section \<open>Fixtures\<close>

text \<open>
  Concrete platforms, work steps and workers on which the properties below are
  evaluated. \<open>failing_os\<close> has integer priorities, default \<open>0\<close>, and a scheduling
  call that always returns zero; the call of \<open>working_os\<close> always returns one.
  \<open>echo_work\<close> is the work step of the repository's test
  \<^verbatim>\<open>run_with_data_type_and_return_type\<close> (\<^verbatim>\<open>_last = data; return _last;\<close>),
  and \<open>test_schedule\<close> is that test's run: each \<open>notify\<close> is followed by the steps
  that satisfy its future before the next one is made. \<open>fragile_work\<close> throws on the
  input \<open>1\<close>.
\<close>

definition failing_os :: "int platform" where
  "failing_os = \<lparr>DEFAULT = 0, sys_set_priority = (\<lambda>p. 0), sys_errno = 5\<rparr>"

definition working_os :: "int platform" where
  "working_os = \<lparr>DEFAULT = 0, sys_set_priority = (\<lambda>p. 1), sys_errno = 0\<rparr>"

definition noop_work :: "nat \<Rightarrow> error + nat" where
  "noop_work w = Inr w"

definition throwing_work :: "nat \<Rightarrow> error + nat" where
  "throwing_work w = Inl (WorkException ''boom'')"

definition echo_work :: "int \<Rightarrow> int \<Rightarrow> error + int \<times> int" where
  "echo_work w data = Inr (data, data)"

definition fresh_runnable :: "(nat, int) runnable" where
  "fresh_runnable = r_init failing_os 0"

definition fresh_active :: "(int, int, int, int) active_runnable" where
  "fresh_active = ar_init failing_os (- 1)"

definition fragile_work :: "int \<Rightarrow> int \<Rightarrow> error + int \<times> int" where
  "fragile_work w data = (if data = 1 then Inl (WorkException ''boom'') else Inr (data, data))"

definition test_schedule :: "(int, int) event list" where
  "test_schedule =
     [ThreadStep, ThreadStep, ThreadStep,
      CallNotify 0, ThreadStep, ThreadStep, ThreadStep, ThreadStep,
      CallNotify 1, ThreadStep, ThreadStep, ThreadStep, ThreadStep,
      CallNotify 2, ThreadStep, ThreadStep, ThreadStep, ThreadStep,
      CallNotify 3, ThreadStep, ThreadStep, ThreadStep, ThreadStep,
      CallNotify 4, ThreadStep, ThreadStep, ThreadStep, ThreadStep,
      CallNotify 5, ThreadStep, ThreadStep]"

text \<open>
  The run of the same test in which the wait that follows the first answer ends
  without a notification, before the second submission is made.
\<close>

definition spurious_schedule :: "(int, int) event list" where
  "spurious_schedule =
     [ThreadStep, ThreadStep, ThreadStep,
      CallNotify 0, ThreadStep, ThreadStep, ThreadStep, ThreadStep,
      SpuriousWake, ThreadStep,
      CallNotify 1, ThreadStep, ThreadStep, ThreadStep, ThreadStep,
      CallNotify 2, ThreadStep, ThreadStep, ThreadStep, ThreadStep,
      CallNotify 3, ThreadStep, ThreadStep, ThreadStep, ThreadStep,
      CallNotify 4, ThreadStep, ThreadStep, ThreadStep, ThreadStep,
      CallNotify 5, ThreadStep, ThreadStep]"

text \<open>
  The work steps and runs of the tests \<^verbatim>\<open>run_with_return_type\<close> (a counter in a
  \<^verbatim>\<open>uint8_t\<close>, returned before it is incremented) and \<^verbatim>\<open>run\<close> (a flag that
  the work step sets).
\<close>

definition counting_work :: "8 word \<Rightarrow> unit \<Rightarrow> error + int \<times> 8 word" where
  "counting_work count u = Inr (uint count, count + 1)"

definition counting_schedule :: "(unit, int) event list" where
  "counting_schedule =
     [CallRun, ThreadStep, ThreadStep, ThreadStep,
      CallNotify (), ThreadStep, ThreadStep, ThreadStep, ThreadStep,
      CallNotify (), ThreadStep, ThreadStep, ThreadStep, ThreadStep,
      CallNotify (), ThreadStep, ThreadStep, ThreadStep, ThreadStep,
      CallNotify (), ThreadStep, ThreadStep, ThreadStep, ThreadStep,
      CallNotify (), ThreadStep, ThreadStep, ThreadStep, ThreadStep,
      CallStop, ThreadStep]"

definition flag_work :: "bool \<Rightarrow> error + bool" where
  "flag_work v = Inr True"

definition stop_history :: "(int, int) event list" where
  "stop_history = [CallRun, ThreadStep, ThreadStep, CallNotify 7, CallStop]"

definition fragile_history :: "(int, int) event list" where
  "fragile_history = [CallRun, CallNotify 1, CallNotify 2, ThreadStep, ThreadStep, ThreadStep]"

section \<open>Properties of SizedQueue\<close>

lemma insert_one_eq:
  "insert_one N q i = (if length q = unat N then tl q else q) @ [inserted i]"
  by (cases i) (simp_all add: push_back_def emplace_back_def sq_size_def pop_front_def)

lemma insert_one_length:
  assumes "N \<noteq> 0" and "length q \<le> unat N"
  shows "length (insert_one N q i) \<le> unat N"
proof -
  from assms(1) have "0 < unat N" by (simp add: unat_gt_0)
  with assms(2) show ?thesis by (auto simp: insert_one_eq)
qed

definition lastn :: "nat \<Rightarrow> 'a list \<Rightarrow> 'a list" where
  "lastn n xs = drop (length xs - n) xs"

lemma lastn_append: "lastn n (lastn n xs @ ys) = lastn n (xs @ ys)"
proof (cases "length xs \<le> n")
  case True
  then show ?thesis by (simp add: lastn_def)
next
  case False
  then have "length (drop (length xs - n) xs) = n" by simp
  then show ?thesis using False by (simp add: lastn_def add.commute)
qed

lemma lastn_short: "length xs \<le> n \<Longrightarrow> lastn n xs = xs"
  by (simp add: lastn_def)

lemma length_lastn: "length (lastn n xs) \<le> n"
  by (simp add: lastn_def)

lemma insert_one_lastn:
  assumes "N \<noteq> 0" and "length q \<le> unat N"
  shows "insert_one N q i = lastn (unat N) (q @ [inserted i])"
proof (cases "length q = unat N")
  case True
  from assms(1) have "0 < unat N" by (simp add: unat_gt_0)
  with True have ne: "q \<noteq> []" by auto
  from True have "lastn (unat N) (q @ [inserted i]) = drop (Suc 0) (q @ [inserted i])"
    by (simp add: lastn_def)
  also have "\<dots> = tl (q @ [inserted i])"
    by (simp only: drop_Suc drop_0)
  also from ne have "\<dots> = tl q @ [inserted i]" by simp
  finally show ?thesis using True by (simp add: insert_one_eq)
next
  case False
  with assms(2) show ?thesis by (simp add: insert_one_eq lastn_def)
qed

lemma insert_all_lastn:
  assumes "N \<noteq> 0" and "length q \<le> unat N"
  shows "insert_all N q ops = lastn (unat N) (q @ map inserted ops)"
  using assms(2)
proof (induction ops arbitrary: q)
  case Nil
  then show ?case by (simp add: insert_all_def lastn_short)
next
  case (Cons i ops)
  let ?q = "insert_one N q i"
  have q: "?q = lastn (unat N) (q @ [inserted i])"
    by (rule insert_one_lastn [OF assms(1) Cons.prems])
  then have len: "length ?q \<le> unat N"
    by (simp only: length_lastn)
  have "insert_all N q (i # ops) = insert_all N ?q ops"
    by (simp add: insert_all_def)
  also have "\<dots> = lastn (unat N) (?q @ map inserted ops)"
    by (rule Cons.IH [OF len])
  also have "\<dots> = lastn (unat N) ((q @ [inserted i]) @ map inserted ops)"
    by (simp only: q lastn_append)
  finally show ?case by simp
qed

text \<open>
  C2. For a queue of capacity \<open>N > 0\<close> (holding at most \<open>N\<close> elements, as every queue
  built by insertions and removals does) and every sequence of \<open>M > N\<close> insertions
  through \<open>push_back\<close> or \<open>emplace_back\<close>, the queue afterwards holds exactly the last
  \<open>N\<close> inserted items, oldest first, and after every prefix of the insertions
  \<open>size()\<close> is at most \<open>N\<close>.
\<close>

theorem sized_queue_keeps_last_N:
  assumes "N \<noteq> 0" and "length q \<le> unat N" and "unat N < length ops"
  shows "insert_all N q ops = drop (length ops - unat N) (map inserted ops)
         \<and> (\<forall>k \<le> length ops. sq_size (insert_all N q (take k ops)) \<le> unat N)"
proof -
  from insert_all_lastn [OF assms(1,2), of ops] assms(2,3)
  have "insert_all N q ops = drop (length ops - unat N) (map inserted ops)"
    by (simp add: lastn_def)
  moreover have "\<forall>k \<le> length ops. sq_size (insert_all N q (take k ops)) \<le> unat N"
    by (simp add: insert_all_lastn [OF assms(1,2)] sq_size_def length_lastn)
  ultimately show ?thesis by simp
qed

theorem sized_queue_keeps_last_N_witness:
  "(3 :: 64 word) \<noteq> 0 \<and> length ([] :: nat list) \<le> unat (3 :: 64 word)
   \<and> unat (3 :: 64 word) < length [PushBack (1::nat), PushBack 2, EmplaceBack 3, PushBack 4, EmplaceBack 5]
   \<and> insert_all 3 [] [PushBack (1::nat), PushBack 2, EmplaceBack 3, PushBack 4, EmplaceBack 5] = [3, 4, 5]
   \<and> sq_size (insert_all 3 [] (take 4 [PushBack (1::nat), PushBack 2, EmplaceBack 3, PushBack 4, EmplaceBack 5])) \<le> 3"
  using sized_queue_keeps_last_N [of 3 "[]" "[PushBack (1::nat), PushBack 2, EmplaceBack 3, PushBack 4, EmplaceBack 5]"]
  by (simp add: insert_all_def push_back_def emplace_back_def sq_size_def pop_front_def)


section \<open>Properties of ThreadDetail and of the workers' calls\<close>

lemmas td_defs = td_create_def td_set_priority_def td_get_priority_def td_set_name_def
  td_get_name_def td_start_def td_prologue_def td_prologue_unassigned_def td_epilogue_def
  td_detach_def td_join_def

lemmas r_defs = r_init_def r_spawn_def r_run_def r_stop_def r_status_def r_set_priority_def
  r_get_priority_def r_set_name_def r_get_name_def r_destroy_def r_resume_def r_own_handle_def
  r_set_own_handle_def r_thread_code_def r_thread_step_def r_early_prologue_def
  r_destroy_object_def r_exec_def r_exec_all_def

lemmas ar_defs = ar_init_def ar_spawn_def ar_run_def ar_stop_def ar_status_def ar_set_priority_def
  ar_get_priority_def ar_set_name_def ar_get_name_def ar_destroy_def ar_resume_def ar_own_handle_def
  ar_set_own_handle_def ar_leave_loop_def ar_take_task_def ar_set_value_def ar_thread_step_def
  ar_thread_code_def ar_early_prologue_def ar_destroy_object_def break_promise_def
  ar_spurious_wake_def ar_notify_def ar_exec_def ar_exec_all_def

lemma td_set_priority_cases:
  "td_set_priority os p th = (ok, th', eff) \<Longrightarrow>
     joinable th' = joinable th \<and> td_promise th' = td_promise th \<and> td_name th' = td_name th
     \<and> (th' = th \<or> th' = th\<lparr>td_priority := p\<rparr>)"
  by (auto simp: td_set_priority_def split: if_splits)

subsection \<open>The running flag is only cleared by stop\<close>

lemma r_spawn_running: "r_running (r_spawn os r) = r_running r"
  by (auto simp: r_spawn_def split: option.splits prod.splits)

lemma r_thread_code_running: "r_running (r_thread_code os work r) = r_running r"
  by (auto simp: r_thread_code_def r_set_own_handle_def
      split: rpc.splits option.splits prod.splits caller.splits sum.splits)

lemma r_thread_step_running: "r_running (r_thread_step os work r) = r_running r"
  by (simp add: r_thread_step_def r_thread_code_running)

lemma r_early_prologue_running: "r_running (r_early_prologue os r) = r_running r"
  by (auto simp: r_early_prologue_def r_set_own_handle_def
      split: rpc.splits option.splits prod.splits caller.splits)

lemma r_exec_running:
  "r_running r \<Longrightarrow> ev \<noteq> RCallStop \<Longrightarrow> r_running (r_exec os work r ev)"
  by (cases ev)
     (auto simp: r_exec_def r_run_def r_set_priority_def r_set_name_def r_destroy_def r_resume_def
        r_destroy_object_def r_spawn_running r_thread_step_running r_early_prologue_running Let_def
        split: option.splits prod.splits caller.splits)

lemma r_exec_all_running:
  "r_running r \<Longrightarrow> RCallStop \<notin> set evs \<Longrightarrow> r_running (r_exec_all os work r evs)"
  unfolding r_exec_all_def
  by (induction evs arbitrary: r) (auto simp: r_exec_running)

lemma ar_spawn_running: "ar_running (ar_spawn os r) = ar_running r"
  by (auto simp: ar_spawn_def split: option.splits prod.splits)

lemma ar_leave_loop_running: "ar_running (ar_leave_loop s) = ar_running s"
  by (auto simp: ar_leave_loop_def ar_set_own_handle_def split: option.splits caller.splits)

lemma ar_thread_code_running: "ar_running (ar_thread_code os work s) = ar_running s"
  by (auto simp: ar_thread_code_def ar_set_own_handle_def ar_take_task_def ar_leave_loop_running
        ar_set_value_def
      split: apc.splits option.splits prod.splits caller.splits sum.splits list.splits)

lemma ar_thread_step_running: "ar_running (ar_thread_step os work s) = ar_running s"
  by (simp add: ar_thread_step_def ar_thread_code_running)

lemma ar_early_prologue_running: "ar_running (ar_early_prologue os s) = ar_running s"
  by (auto simp: ar_early_prologue_def ar_set_own_handle_def
      split: apc.splits option.splits prod.splits caller.splits)

lemma ar_exec_running:
  "ar_running s \<Longrightarrow> ev \<noteq> CallStop \<Longrightarrow> ar_running (ar_exec os work s ev)"
  by (cases ev)
     (auto simp: ar_exec_def ar_run_def ar_set_priority_def ar_set_name_def ar_destroy_def
        ar_destroy_object_def ar_resume_def ar_spawn_running ar_thread_step_running
        ar_early_prologue_running ar_notify_def ar_spurious_wake_def Let_def
        split: option.splits prod.splits caller.splits)

lemma ar_exec_all_running:
  "ar_running s \<Longrightarrow> CallStop \<notin> set evs \<Longrightarrow> ar_running (ar_exec_all os work s evs)"
  unfolding ar_exec_all_def
  by (induction evs arbitrary: s) (auto simp: ar_exec_running)

text \<open>
  C3. On a Runnable and on an ActiveRunnable that has not been run, \<open>run()\<close> returns (the
  completion future it hands out is the still unsatisfied promise of the new handle),
  and after any events that do not include \<open>stop()\<close> a second \<open>run()\<close> throws
  \<open>AlreadyRunningException\<close>.
\<close>

theorem run_twice_raises_already_running:
  assumes "r_t r = None" and "\<not> r_running r" and "RCallStop \<notin> set revs"
    and "ar_t s = None" and "\<not> ar_running s" and "CallStop \<notin> set evs"
  shows "(\<exists>r'. r_run os r = Returned r' \<and> map_option td_promise (r_t r') = Some Pending
            \<and> r_run os (r_exec_all os rwork r' revs) = Raised AlreadyRunningException)
       \<and> (\<exists>s'. ar_run os s = Returned s' \<and> map_option td_promise (ar_t s') = Some Pending
            \<and> ar_run os (ar_exec_all os work s' evs) = Raised AlreadyRunningException)"
proof -
  let ?r' = "r_spawn os (r\<lparr>r_running := True, r_t := Some (td_create os)\<rparr>)"
  let ?s' = "ar_spawn os (s\<lparr>ar_running := True, ar_t := Some (td_create os)\<rparr>)"
  have r1: "r_run os r = Returned ?r'"
    using assms(1,2) by (simp add: r_run_def)
  have r2: "map_option td_promise (r_t ?r') = Some Pending"
    by (simp add: r_spawn_def td_defs)
  have "r_running ?r'" by (simp add: r_spawn_running)
  then have "r_running (r_exec_all os rwork ?r' revs)"
    using assms(3) by (rule r_exec_all_running)
  then have r3: "r_run os (r_exec_all os rwork ?r' revs) = Raised AlreadyRunningException"
    by (simp add: r_run_def)
  have s1: "ar_run os s = Returned ?s'"
    using assms(4,5) by (simp add: ar_run_def)
  have s2: "map_option td_promise (ar_t ?s') = Some Pending"
    by (simp add: ar_spawn_def td_defs)
  have "ar_running ?s'" by (simp add: ar_spawn_running)
  then have "ar_running (ar_exec_all os work ?s' evs)"
    using assms(6) by (rule ar_exec_all_running)
  then have s3: "ar_run os (ar_exec_all os work ?s' evs) = Raised AlreadyRunningException"
    by (simp add: ar_run_def)
  from r1 r2 r3 s1 s2 s3 show ?thesis by blast
qed

theorem run_twice_raises_already_running_witness:
  "r_run failing_os (r_exec_all failing_os noop_work
      (state_after fresh_runnable (r_run failing_os fresh_runnable))
      [RThreadStep, RCallSetPriority 2, RThreadStep]) = Raised AlreadyRunningException
   \<and> ar_run failing_os (ar_exec_all failing_os echo_work
      (state_after fresh_active (ar_run failing_os fresh_active))
      [CallNotify 7, ThreadStep, ThreadStep]) = Raised AlreadyRunningException
   \<and> r_run failing_os fresh_runnable \<noteq> Raised AlreadyRunningException
   \<and> ar_run failing_os fresh_active \<noteq> Raised AlreadyRunningException"
  using run_twice_raises_already_running [of fresh_runnable
      "[RThreadStep, RCallSetPriority 2, RThreadStep]"
      fresh_active "[CallNotify 7, ThreadStep, ThreadStep]" failing_os noop_work echo_work]
  by (auto simp: fresh_runnable_def fresh_active_def r_init_def ar_init_def)

lemma runnable_work_error_is_not_caught:
  assumes "r_fault r = None" and "\<not> destructing (r_caller r)"
    and "r_pc r = RInWork" and "work (r_members r) = Inl e"
  shows "r_exec os work r RThreadStep = r\<lparr>r_fault := Some (Uncaught e)\<rparr>"
    and "r_exec_all os work (r\<lparr>r_fault := Some (Uncaught e)\<rparr>) evs = r\<lparr>r_fault := Some (Uncaught e)\<rparr>"
proof -
  from assms have "r_caller r \<noteq> Destroyed" by auto
  with assms show "r_exec os work r RThreadStep = r\<lparr>r_fault := Some (Uncaught e)\<rparr>"
    by (simp add: r_exec_def r_thread_step_def r_thread_code_def)
  show "r_exec_all os work (r\<lparr>r_fault := Some (Uncaught e)\<rparr>) evs = r\<lparr>r_fault := Some (Uncaught e)\<rparr>"
    unfolding r_exec_all_def by (induction evs) (simp_all add: r_exec_def)
qed

text \<open>
  C5, at a work step that throws. The exception leaves the loop and the function of the
  thread: \<^verbatim>\<open>std::terminate\<close> is called, the promise behind the future of \<open>run()\<close> is
  left unsatisfied (it holds neither a value nor the exception), and the flag is still
  set. The comment on \<^verbatim>\<open>Runnable::__work\<close> says that \<open>run()\<close> catches the exception
  and sets the future to it.
\<close>

theorem runnable_work_error_leaves_future_pending:
  "r_fault (r_exec_all failing_os throwing_work fresh_runnable
       [RCallRun, RThreadStep, RThreadStep, RThreadStep])
     = Some (Uncaught (WorkException ''boom''))
   \<and> map_option td_promise (r_t (r_exec_all failing_os throwing_work fresh_runnable
       [RCallRun, RThreadStep, RThreadStep, RThreadStep])) = Some Pending
   \<and> r_status (r_exec_all failing_os throwing_work fresh_runnable
       [RCallRun, RThreadStep, RThreadStep, RThreadStep])"
  by (simp add: r_defs td_defs failing_os_def throwing_work_def fresh_runnable_def)

lemma td_prologue_unassigned_eq: "td_prologue_unassigned os th = (th, [])"
  by (simp add: td_prologue_unassigned_def td_prologue_def td_set_priority_def td_set_name_def)




text \<open>
  The other order: a prologue that runs before \<^verbatim>\<open>_thread\<close> is assigned finds
  \<^verbatim>\<open>joinable()\<close> false and makes no scheduling call, whatever the priority.
\<close>

lemma early_prologue_makes_no_scheduling_call:
  "r_trace (r_early_prologue os r) = r_trace r"
  "ar_trace (ar_early_prologue os s) = ar_trace s"
  by (auto simp: r_early_prologue_def ar_early_prologue_def td_prologue_unassigned_eq
        r_set_own_handle_def ar_set_own_handle_def
      split: rpc.splits apc.splits option.splits caller.splits)

text \<open>
  C8 as the specification states it fails: on a started handle whose cached priority
  is \<open>0\<close>, a failing \<open>set_priority(2)\<close> returns false and \<open>get_priority()\<close> still
  returns \<open>0\<close>.
\<close>

theorem set_priority_failure_keeps_old_counterexample:
  "joinable (td_start (td_create failing_os))
   \<and> (2::int) \<noteq> DEFAULT failing_os
   \<and> sys_call_failed WIN32 (sys_set_priority failing_os 2)
   \<and> fst (td_set_priority failing_os 2 (td_start (td_create failing_os))) = False
   \<and> td_get_priority (fst (snd (td_set_priority failing_os 2 (td_start (td_create failing_os)))))
       \<noteq> 2"
  by (simp add: td_defs failing_os_def)

text \<open>
  C8, amended. On a handle whose thread has started, \<open>set_priority(p)\<close> with \<open>p\<close> not
  the default makes the scheduling call, once. When the WIN32 call fails, the error
  code is logged, false is returned and the handle is left as it was, so the handle's
  \<open>get_priority()\<close> returns the earlier value. When the WIN32 call succeeds, the
  handle caches \<open>p\<close> and true is returned. With \<open>p\<close> the default no call is made, the
  handle is left as it was and true is returned. A running worker stores \<open>p\<close> itself
  before it passes the call on to its handle, keeps what the handle did and returns
  what the handle returns, so the worker's \<open>get_priority()\<close> returns \<open>p\<close>.
\<close>

theorem set_priority_on_started_thread:
  assumes "joinable th"
    and "r_running r" and "r_t r = Some th"
    and "ar_running s" and "ar_t s = Some th"
  shows "(p \<noteq> DEFAULT os \<and> sys_call_failed WIN32 (sys_set_priority os p) \<longrightarrow>
            td_set_priority os p th = (False, th, [SysSetPriority p, LogError (sys_errno os)])
            \<and> td_get_priority (fst (snd (td_set_priority os p th))) = td_get_priority th)
       \<and> (p \<noteq> DEFAULT os \<and> \<not> sys_call_failed WIN32 (sys_set_priority os p) \<longrightarrow>
            td_set_priority os p th = (True, th\<lparr>td_priority := p\<rparr>, [SysSetPriority p])
            \<and> td_get_priority (fst (snd (td_set_priority os p th))) = p)
       \<and> (p = DEFAULT os \<longrightarrow> td_set_priority os p th = (True, th, []))
       \<and> fst (r_set_priority os p r) = fst (td_set_priority os p th)
       \<and> r_t (snd (r_set_priority os p r)) = Some (fst (snd (td_set_priority os p th)))
       \<and> r_trace (snd (r_set_priority os p r)) = r_trace r @ snd (snd (td_set_priority os p th))
       \<and> r_get_priority (snd (r_set_priority os p r)) = p
       \<and> fst (ar_set_priority os p s) = fst (td_set_priority os p th)
       \<and> ar_t (snd (ar_set_priority os p s)) = Some (fst (snd (td_set_priority os p th)))
       \<and> ar_trace (snd (ar_set_priority os p s)) = ar_trace s @ snd (snd (td_set_priority os p th))
       \<and> ar_get_priority (snd (ar_set_priority os p s)) = p"
proof -
  have "p \<noteq> DEFAULT os \<and> sys_call_failed WIN32 (sys_set_priority os p) \<longrightarrow>
          td_set_priority os p th = (False, th, [SysSetPriority p, LogError (sys_errno os)])
          \<and> td_get_priority (fst (snd (td_set_priority os p th))) = td_get_priority th"
    using assms(1) by (simp add: td_set_priority_def)
  moreover have "p \<noteq> DEFAULT os \<and> \<not> sys_call_failed WIN32 (sys_set_priority os p) \<longrightarrow>
          td_set_priority os p th = (True, th\<lparr>td_priority := p\<rparr>, [SysSetPriority p])
          \<and> td_get_priority (fst (snd (td_set_priority os p th))) = p"
    using assms(1) by (auto simp: td_set_priority_def td_get_priority_def)
  moreover have "p = DEFAULT os \<longrightarrow> td_set_priority os p th = (True, th, [])"
    using assms(1) by (simp add: td_set_priority_def)
  moreover have "fst (r_set_priority os p r) = fst (td_set_priority os p th)
      \<and> r_t (snd (r_set_priority os p r)) = Some (fst (snd (td_set_priority os p th)))
      \<and> r_trace (snd (r_set_priority os p r)) = r_trace r @ snd (snd (td_set_priority os p th))
      \<and> r_get_priority (snd (r_set_priority os p r)) = p"
    using assms(2,3) by (simp add: r_set_priority_def r_get_priority_def split: prod.splits)
  moreover have "fst (ar_set_priority os p s) = fst (td_set_priority os p th)
      \<and> ar_t (snd (ar_set_priority os p s)) = Some (fst (snd (td_set_priority os p th)))
      \<and> ar_trace (snd (ar_set_priority os p s)) = ar_trace s @ snd (snd (td_set_priority os p th))
      \<and> ar_get_priority (snd (ar_set_priority os p s)) = p"
    using assms(4,5) by (simp add: ar_set_priority_def ar_get_priority_def split: prod.splits)
  ultimately show ?thesis by blast
qed

theorem set_priority_on_started_thread_witness:
  "td_set_priority failing_os 2 (td_start (td_create failing_os))
     = (False, td_start (td_create failing_os), [SysSetPriority 2, LogError 5])
   \<and> td_set_priority working_os 2 (td_start (td_create working_os))
     = (True, (td_start (td_create working_os))\<lparr>td_priority := 2\<rparr>, [SysSetPriority 2])
   \<and> td_set_priority failing_os 0 (td_start (td_create failing_os))
     = (True, td_start (td_create failing_os), [])
   \<and> fst (r_set_priority failing_os 2 (state_after fresh_runnable (r_run failing_os fresh_runnable)))
     = False
   \<and> r_get_priority
       (snd (r_set_priority failing_os 2 (state_after fresh_runnable (r_run failing_os fresh_runnable))))
     = 2
   \<and> ar_get_priority
       (snd (ar_set_priority failing_os 2 (state_after fresh_active (ar_run failing_os fresh_active))))
     = 2
   \<and> r_trace
       (snd (r_set_priority working_os 2 (state_after fresh_runnable (r_run working_os fresh_runnable))))
     = [SysSetPriority 2]"
  using set_priority_on_started_thread
    [of "td_start (td_create failing_os)"
        "state_after fresh_runnable (r_run failing_os fresh_runnable)"
        "state_after fresh_active (ar_run failing_os fresh_active)" 2 failing_os]
    set_priority_on_started_thread
    [of "td_start (td_create failing_os)"
        "state_after fresh_runnable (r_run failing_os fresh_runnable)"
        "state_after fresh_active (ar_run failing_os fresh_active)" 0 failing_os]
    set_priority_on_started_thread
    [of "td_start (td_create working_os)"
        "state_after fresh_runnable (r_run working_os fresh_runnable)"
        "state_after fresh_active (ar_run working_os fresh_active)" 2 working_os]
  by (simp add: fresh_runnable_def fresh_active_def r_defs ar_defs td_defs failing_os_def
        working_os_def)

text \<open>
  The LINUX variant makes the same test on a call that returns zero when it succeeds:
  a failed call is taken for a success.
\<close>

lemma set_priority_linux_failure_taken_for_success:
  assumes "joinable th" and "p \<noteq> DEFAULT os" and "sys_call_failed LINUX (sys_set_priority os p)"
  shows "td_set_priority os p th = (True, th\<lparr>td_priority := p\<rparr>, [SysSetPriority p])"
  using assms by (simp add: td_set_priority_def)

section \<open>Thread lifetimes\<close>

lemma ar_alive_notify_one [simp]: "ar_alive (notify_one pc) = ar_alive pc"
  by (cases pc) simp_all

lemma td_prologue_joinable: "td_prologue os th = (th', eff) \<Longrightarrow> joinable th' = joinable th"
  by (auto simp: td_prologue_def td_set_name_def split: prod.splits dest: td_set_priority_cases)

lemma ar_handle_inv_init: "ar_handle_inv (ar_init os w)"
  by (simp add: ar_handle_inv_def ar_init_def)

lemma ar_handle_inv_run:
  assumes "ar_handle_inv s" and "ar_caller s = NoCall"
  shows "ar_handle_inv (state_after s (ar_run os s))"
  using assms
  by (auto simp: ar_handle_inv_def ar_thread_joinable_def ar_own_handle_def ar_run_def ar_spawn_def
        td_join_def td_start_def td_create_def td_set_name_def Let_def
      split: option.splits prod.splits if_splits)

lemma ar_handle_inv_fault [simp]: "ar_handle_inv (s\<lparr>ar_fault := f\<rparr>) = ar_handle_inv s"
  by (simp add: ar_handle_inv_def ar_thread_joinable_def ar_own_handle_def split: caller.splits)

lemma ar_handle_inv_destroy:
  assumes "ar_handle_inv s" and "ar_caller s = NoCall"
  shows "ar_handle_inv (state_after s (ar_destroy s))"
  using assms
  by (auto simp: ar_handle_inv_def ar_thread_joinable_def ar_own_handle_def ar_destroy_def
        ar_destroy_object_def td_join_def Let_def split: option.splits if_splits)

lemma ar_handle_inv_resume:
  assumes "ar_handle_inv s"
  shows "ar_handle_inv (ar_resume os s)"
  using assms
  by (auto simp: ar_handle_inv_def ar_thread_joinable_def ar_own_handle_def ar_resume_def
        ar_spawn_def td_join_def td_start_def td_set_name_def
      split: option.splits if_splits caller.splits prod.splits)

lemma ar_handle_inv_leave_loop:
  assumes "ar_handle_inv s"
  shows "ar_handle_inv (ar_leave_loop s)"
  using assms
  by (auto simp: ar_handle_inv_def ar_thread_joinable_def ar_own_handle_def ar_leave_loop_def
        ar_set_own_handle_def
      split: option.splits caller.splits)

lemma ar_handle_inv_thread_code:
  assumes "ar_handle_inv s"
  shows "ar_handle_inv (ar_thread_code os work s)"
proof (cases "ar_pc s")
  case Prologue
  with assms show ?thesis
    by (auto simp: ar_handle_inv_def ar_thread_joinable_def ar_own_handle_def ar_thread_code_def
          ar_set_own_handle_def
        split: option.splits caller.splits prod.splits dest: td_prologue_joinable)
next
  case LoopHead
  with assms ar_handle_inv_leave_loop [OF assms] show ?thesis
    by (auto simp: ar_thread_code_def ar_handle_inv_def ar_thread_joinable_def ar_own_handle_def
        split: caller.splits)
next
  case Locking
  with assms ar_handle_inv_leave_loop [OF assms] show ?thesis
    by (auto simp: ar_thread_code_def ar_take_task_def ar_handle_inv_def ar_thread_joinable_def
          ar_own_handle_def
        split: caller.splits list.splits)
next
  case Woken
  with assms ar_handle_inv_leave_loop [OF assms] show ?thesis
    by (auto simp: ar_thread_code_def ar_take_task_def ar_handle_inv_def ar_thread_joinable_def
          ar_own_handle_def
        split: caller.splits list.splits)
next
  case (Working d p)
  with assms show ?thesis
    by (auto simp: ar_thread_code_def ar_set_value_def ar_handle_inv_def ar_thread_joinable_def
          ar_own_handle_def
        split: caller.splits sum.splits prod.splits)
qed (use assms in \<open>simp_all add: ar_thread_code_def\<close>)

lemma ar_handle_inv_thread_step:
  "ar_handle_inv s \<Longrightarrow> ar_handle_inv (ar_thread_step os work s)"
  by (simp add: ar_thread_step_def ar_handle_inv_thread_code)

lemma ar_handle_inv_early_prologue:
  assumes "ar_handle_inv s"
  shows "ar_handle_inv (ar_early_prologue os s)"
  using assms
  by (auto simp: ar_early_prologue_def td_prologue_unassigned_eq ar_handle_inv_def
        ar_thread_joinable_def ar_own_handle_def ar_set_own_handle_def
      split: apc.splits option.splits caller.splits)

lemma ar_handle_inv_exec:
  assumes "ar_handle_inv s"
  shows "ar_handle_inv (ar_exec os work s ev)"
proof (cases "ar_fault s \<noteq> None \<or> ar_caller s = Destroyed")
  case True
  with assms show ?thesis by (simp add: ar_exec_def)
next
  case False
  show ?thesis
  proof (cases "destructing (ar_caller s) \<and> is_call ev")
    case True
    with False assms show ?thesis by (simp add: ar_exec_def)
  next
    case call: False
    show ?thesis
    proof (cases ev)
    case CallRun
    with False call assms ar_handle_inv_run [OF assms] show ?thesis by (simp add: ar_exec_def)
  next
    case CallStop
    with False call assms show ?thesis
      by (auto simp: ar_exec_def ar_stop_def ar_handle_inv_def ar_thread_joinable_def
            ar_own_handle_def split: caller.splits)
  next
    case (CallNotify d)
    with False call assms show ?thesis
      by (auto simp: ar_exec_def ar_notify_def ar_handle_inv_def ar_thread_joinable_def
            ar_own_handle_def Let_def split: caller.splits)
  next
    case (CallSetPriority p)
    with False call assms show ?thesis
      by (auto simp: ar_exec_def ar_set_priority_def ar_handle_inv_def ar_thread_joinable_def
            ar_own_handle_def Let_def
          split: caller.splits option.splits prod.splits dest: td_set_priority_cases)
  next
    case (CallSetName n)
    with False call assms show ?thesis
      by (auto simp: ar_exec_def ar_set_name_def ar_handle_inv_def ar_thread_joinable_def
            ar_own_handle_def td_set_name_def Let_def
          split: caller.splits option.splits)
  next
    case Destroy
    with False call assms ar_handle_inv_destroy [OF assms] show ?thesis by (simp add: ar_exec_def)
  next
    case Resume
    with False call ar_handle_inv_resume [OF assms] show ?thesis by (simp add: ar_exec_def)
  next
    case ThreadStep
    with False call ar_handle_inv_thread_step [OF assms] show ?thesis by (simp add: ar_exec_def)
  next
    case SpuriousWake
    with False call assms show ?thesis
      by (auto simp: ar_exec_def ar_spurious_wake_def ar_handle_inv_def ar_thread_joinable_def
            ar_own_handle_def split: caller.splits)
  next
      case EarlyPrologue
      with False ar_handle_inv_early_prologue [OF assms] show ?thesis by (simp add: ar_exec_def)
    qed
  qed
qed

lemma ar_handle_inv_exec_all:
  "ar_handle_inv s \<Longrightarrow> ar_handle_inv (ar_exec_all os work s evs)"
  unfolding ar_exec_all_def
  by (induction evs arbitrary: s) (simp_all add: ar_handle_inv_exec)

lemma r_handle_inv_init: "r_handle_inv (r_init os w)"
  by (simp add: r_handle_inv_def r_init_def)

lemma r_handle_inv_run:
  assumes "r_handle_inv r" and "r_caller r = NoCall"
  shows "r_handle_inv (state_after r (r_run os r))"
  using assms
  by (auto simp: r_handle_inv_def r_thread_joinable_def r_own_handle_def r_run_def r_spawn_def
        td_join_def td_start_def td_create_def td_set_name_def Let_def
      split: option.splits prod.splits if_splits)

lemma r_handle_inv_fault [simp]: "r_handle_inv (r\<lparr>r_fault := f\<rparr>) = r_handle_inv r"
  by (simp add: r_handle_inv_def r_thread_joinable_def r_own_handle_def split: caller.splits)

lemma r_handle_inv_destroy:
  assumes "r_handle_inv r" and "r_caller r = NoCall"
  shows "r_handle_inv (state_after r (r_destroy r))"
  using assms
  by (auto simp: r_handle_inv_def r_thread_joinable_def r_own_handle_def r_destroy_def
        r_destroy_object_def td_join_def Let_def split: option.splits if_splits)

lemma r_handle_inv_resume:
  assumes "r_handle_inv r"
  shows "r_handle_inv (r_resume os r)"
  using assms
  by (auto simp: r_handle_inv_def r_thread_joinable_def r_own_handle_def r_resume_def
        r_spawn_def td_join_def td_start_def td_set_name_def
      split: option.splits if_splits caller.splits prod.splits)

lemma r_handle_inv_thread_code:
  assumes "r_handle_inv r"
  shows "r_handle_inv (r_thread_code os work r)"
proof (cases "r_pc r")
  case RPrologue
  with assms show ?thesis
    by (auto simp: r_handle_inv_def r_thread_joinable_def r_own_handle_def r_thread_code_def
          r_set_own_handle_def
        split: option.splits caller.splits prod.splits dest: td_prologue_joinable)
next
  case RLoopHead
  with assms show ?thesis
    by (auto simp: r_handle_inv_def r_thread_joinable_def r_own_handle_def r_thread_code_def
          r_set_own_handle_def
        split: option.splits caller.splits)
next
  case RInWork
  with assms show ?thesis
    by (auto simp: r_handle_inv_def r_thread_joinable_def r_own_handle_def r_thread_code_def
        split: caller.splits sum.splits)
qed (use assms in \<open>simp_all add: r_thread_code_def\<close>)

lemma r_handle_inv_thread_step:
  "r_handle_inv r \<Longrightarrow> r_handle_inv (r_thread_step os work r)"
  by (simp add: r_thread_step_def r_handle_inv_thread_code)

lemma r_handle_inv_early_prologue:
  assumes "r_handle_inv r"
  shows "r_handle_inv (r_early_prologue os r)"
  using assms
  by (auto simp: r_early_prologue_def td_prologue_unassigned_eq r_handle_inv_def
        r_thread_joinable_def r_own_handle_def r_set_own_handle_def
      split: rpc.splits option.splits caller.splits)

lemma r_handle_inv_exec:
  assumes "r_handle_inv r"
  shows "r_handle_inv (r_exec os work r ev)"
proof (cases "r_fault r \<noteq> None \<or> r_caller r = Destroyed")
  case True
  with assms show ?thesis by (simp add: r_exec_def)
next
  case False
  show ?thesis
  proof (cases "destructing (r_caller r) \<and> r_is_call ev")
    case True
    with False assms show ?thesis by (simp add: r_exec_def)
  next
    case call: False
    show ?thesis
    proof (cases ev)
    case RCallRun
    with False call assms r_handle_inv_run [OF assms] show ?thesis by (simp add: r_exec_def)
  next
    case RCallStop
    with False call assms show ?thesis
      by (auto simp: r_exec_def r_stop_def r_handle_inv_def r_thread_joinable_def
            r_own_handle_def split: caller.splits)
  next
    case (RCallSetPriority p)
    with False call assms show ?thesis
      by (auto simp: r_exec_def r_set_priority_def r_handle_inv_def r_thread_joinable_def
            r_own_handle_def Let_def
          split: caller.splits option.splits prod.splits dest: td_set_priority_cases)
  next
    case (RCallSetName n)
    with False call assms show ?thesis
      by (auto simp: r_exec_def r_set_name_def r_handle_inv_def r_thread_joinable_def
            r_own_handle_def td_set_name_def Let_def
          split: caller.splits option.splits)
  next
    case RDestroy
    with False call assms r_handle_inv_destroy [OF assms] show ?thesis by (simp add: r_exec_def)
  next
    case RResume
    with False call r_handle_inv_resume [OF assms] show ?thesis by (simp add: r_exec_def)
  next
    case RThreadStep
    with False call r_handle_inv_thread_step [OF assms] show ?thesis by (simp add: r_exec_def)
  next
      case REarlyPrologue
      with False r_handle_inv_early_prologue [OF assms] show ?thesis by (simp add: r_exec_def)
    qed
  qed
qed

lemma r_handle_inv_exec_all:
  "r_handle_inv r \<Longrightarrow> r_handle_inv (r_exec_all os work r evs)"
  unfolding r_exec_all_def
  by (induction evs arbitrary: r) (simp_all add: r_handle_inv_exec)

lemma ar_destroy_held:
  assumes "ar_handle_inv s" and "ar_caller s = NoCall" and "ar_alive (ar_pc s)"
  shows "is_held (ar_destroy s)"
  using assms
  by (auto simp: ar_handle_inv_def ar_thread_joinable_def ar_own_handle_def ar_destroy_def
        td_join_def Let_def split: option.splits)

lemma r_destroy_held:
  assumes "r_handle_inv r" and "r_caller r = NoCall" and "r_alive (r_pc r)"
  shows "is_held (r_destroy r)"
  using assms
  by (auto simp: r_handle_inv_def r_thread_joinable_def r_own_handle_def r_destroy_def
        td_join_def Let_def split: option.splits)

text \<open>
  What the deleter of the handle does give: in every state a worker reaches from its
  construction, a destructor that has returned has joined a thread that has ended, and
  the destructor of a worker whose thread is alive is held in \<open>join\<close>.
\<close>

lemma destructor_returns_after_thread_ended:
  "(r_caller (r_exec_all os rwork (r_init os rw) revs) = Destroyed
      \<longrightarrow> \<not> r_alive (r_pc (r_exec_all os rwork (r_init os rw) revs)))
   \<and> (r_caller (r_exec_all os rwork (r_init os rw) revs) = NoCall
        \<and> r_alive (r_pc (r_exec_all os rwork (r_init os rw) revs))
      \<longrightarrow> is_held (r_destroy (r_exec_all os rwork (r_init os rw) revs)))
   \<and> (ar_caller (ar_exec_all os work (ar_init os w) evs) = Destroyed
      \<longrightarrow> \<not> ar_alive (ar_pc (ar_exec_all os work (ar_init os w) evs)))
   \<and> (ar_caller (ar_exec_all os work (ar_init os w) evs) = NoCall
        \<and> ar_alive (ar_pc (ar_exec_all os work (ar_init os w) evs))
      \<longrightarrow> is_held (ar_destroy (ar_exec_all os work (ar_init os w) evs)))"
proof -
  have r: "r_handle_inv (r_exec_all os rwork (r_init os rw) revs)"
    by (rule r_handle_inv_exec_all [OF r_handle_inv_init])
  have s: "ar_handle_inv (ar_exec_all os work (ar_init os w) evs)"
    by (rule ar_handle_inv_exec_all [OF ar_handle_inv_init])
  from r have "r_caller (r_exec_all os rwork (r_init os rw) revs) = Destroyed
      \<longrightarrow> \<not> r_alive (r_pc (r_exec_all os rwork (r_init os rw) revs))"
    by (simp add: r_handle_inv_def)
  moreover from s have "ar_caller (ar_exec_all os work (ar_init os w) evs) = Destroyed
      \<longrightarrow> \<not> ar_alive (ar_pc (ar_exec_all os work (ar_init os w) evs))"
    by (simp add: ar_handle_inv_def)
  moreover from r_destroy_held [OF r]
  have "r_caller (r_exec_all os rwork (r_init os rw) revs) = NoCall
        \<and> r_alive (r_pc (r_exec_all os rwork (r_init os rw) revs))
      \<longrightarrow> is_held (r_destroy (r_exec_all os rwork (r_init os rw) revs))"
    by auto
  moreover from ar_destroy_held [OF s]
  have "ar_caller (ar_exec_all os work (ar_init os w) evs) = NoCall
        \<and> ar_alive (ar_pc (ar_exec_all os work (ar_init os w) evs))
      \<longrightarrow> is_held (ar_destroy (ar_exec_all os work (ar_init os w) evs))"
    by auto
  ultimately show ?thesis by blast
qed

text \<open>
  A worker that was stopped before it is dropped: the thread leaves its loop, the
  destructor returns and no thread is left.
\<close>

lemma stopped_worker_is_destroyed:
  "r_caller (r_exec_all failing_os noop_work fresh_runnable
      [RCallRun, RThreadStep, RThreadStep, RCallStop, RThreadStep, RDestroy, RThreadStep, RResume])
     = Destroyed
   \<and> r_fault (r_exec_all failing_os noop_work fresh_runnable
      [RCallRun, RThreadStep, RThreadStep, RCallStop, RThreadStep, RDestroy, RThreadStep, RResume])
     = None
   \<and> r_pc (r_exec_all failing_os noop_work fresh_runnable
      [RCallRun, RThreadStep, RThreadStep, RCallStop, RThreadStep, RDestroy, RThreadStep, RResume])
     = RExited
   \<and> ar_caller (ar_exec_all failing_os echo_work fresh_active
      [CallRun, ThreadStep, ThreadStep, ThreadStep, CallStop, ThreadStep, Destroy]) = Destroyed
   \<and> ar_fault (ar_exec_all failing_os echo_work fresh_active
      [CallRun, ThreadStep, ThreadStep, ThreadStep, CallStop, ThreadStep, Destroy]) = None
   \<and> ar_pc (ar_exec_all failing_os echo_work fresh_active
      [CallRun, ThreadStep, ThreadStep, ThreadStep, CallStop, ThreadStep, Destroy]) = Exited"
  by (simp add: fresh_runnable_def fresh_active_def r_defs ar_defs td_defs failing_os_def
        noop_work_def echo_work_def)

text \<open>
  A running worker that is dropped without \<open>stop()\<close> never finishes its destruction:
  the flag stays set, so the thread does not leave its loop, and what it does next is
  done on an object that is being destroyed.
\<close>

lemma r_dropped_step:
  assumes "destructing (r_caller r)" and "r_caller r \<noteq> Destroyed"
    and "r_fault r \<noteq> None \<or> (r_running r \<and> r_alive (r_pc r))"
    and "r_handle_inv r"
  shows "destructing (r_caller (r_exec os work r ev))
       \<and> r_caller (r_exec os work r ev) \<noteq> Destroyed
       \<and> (r_fault (r_exec os work r ev) \<noteq> None
            \<or> (r_running (r_exec os work r ev) \<and> r_alive (r_pc (r_exec os work r ev))))"
proof (cases "r_fault r \<noteq> None")
  case True
  with assms show ?thesis by (simp add: r_exec_def)
next
  case False
  with assms obtain th where c: "r_caller r = DestroyJoining th" and run: "r_running r"
    and alive: "r_alive (r_pc r)"
    by (cases "r_caller r") auto
  from assms(4) c alive have joinable: "joinable th"
    by (simp add: r_handle_inv_def r_thread_joinable_def r_own_handle_def)
  show ?thesis
  proof (cases "r_is_call ev")
    case True
    with False c show ?thesis by (simp add: r_exec_def)
  next
    case nocall: False
    show ?thesis
    proof (cases ev)
      case RResume
      with False c run alive joinable show ?thesis
        by (simp add: r_exec_def r_resume_def td_join_def)
    next
      case RThreadStep
      with False c run alive show ?thesis
        by (cases "r_pc r")
           (auto simp: r_exec_def r_thread_step_def r_thread_code_def r_own_handle_def
              r_set_own_handle_def split: prod.splits sum.splits)
    next
      case REarlyPrologue
      with False c run alive show ?thesis
        by (cases "r_pc r")
           (auto simp: r_exec_def r_early_prologue_def r_own_handle_def r_set_own_handle_def
              td_prologue_unassigned_eq)
    qed (use nocall in simp_all)
  qed
qed

lemma r_dropped_while_running_is_never_destroyed:
  assumes "r_handle_inv r" and "r_caller r = NoCall" and "r_fault r = None"
    and "r_running r" and "r_alive (r_pc r)"
  shows "r_caller (r_exec_all os work (r_exec os work r RDestroy) evs) \<noteq> Destroyed"
proof -
  have step: "r_handle_inv r' \<Longrightarrow> destructing (r_caller r') \<and> r_caller r' \<noteq> Destroyed
      \<and> (r_fault r' \<noteq> None \<or> (r_running r' \<and> r_alive (r_pc r')))
    \<Longrightarrow> r_caller (r_exec_all os work r' evs) \<noteq> Destroyed" for r'
    unfolding r_exec_all_def
  proof (induction evs arbitrary: r')
    case Nil
    then show ?case by simp
  next
    case (Cons ev evs)
    from Cons.prems have inv: "r_handle_inv (r_exec os work r' ev)" by (simp add: r_handle_inv_exec)
    from Cons.prems r_dropped_step [of r' os work ev]
    have "destructing (r_caller (r_exec os work r' ev))
       \<and> r_caller (r_exec os work r' ev) \<noteq> Destroyed
       \<and> (r_fault (r_exec os work r' ev) \<noteq> None
            \<or> (r_running (r_exec os work r' ev) \<and> r_alive (r_pc (r_exec os work r' ev))))"
      by blast
    from Cons.IH [OF inv this] show ?case by simp
  qed
  have "r_handle_inv (r_exec os work r RDestroy)" using assms(1) by (rule r_handle_inv_exec)
  moreover
  from r_destroy_held [OF assms(1,2,5)] assms(2-5)
  have "destructing (r_caller (r_exec os work r RDestroy))
      \<and> r_caller (r_exec os work r RDestroy) \<noteq> Destroyed
      \<and> (r_fault (r_exec os work r RDestroy) \<noteq> None
           \<or> (r_running (r_exec os work r RDestroy) \<and> r_alive (r_pc (r_exec os work r RDestroy))))"
    by (auto simp: r_exec_def r_destroy_def r_destroy_object_def Let_def
        split: option.splits)
  ultimately show ?thesis by (rule step)
qed

lemma ar_dropped_step:
  assumes "destructing (ar_caller s)" and "ar_caller s \<noteq> Destroyed"
    and "ar_fault s \<noteq> None \<or> (ar_running s \<and> ar_alive (ar_pc s))"
    and "ar_handle_inv s"
  shows "destructing (ar_caller (ar_exec os work s ev))
       \<and> ar_caller (ar_exec os work s ev) \<noteq> Destroyed
       \<and> (ar_fault (ar_exec os work s ev) \<noteq> None
            \<or> (ar_running (ar_exec os work s ev) \<and> ar_alive (ar_pc (ar_exec os work s ev))))"
proof (cases "ar_fault s \<noteq> None")
  case True
  with assms show ?thesis by (simp add: ar_exec_def)
next
  case False
  with assms obtain th where c: "ar_caller s = DestroyJoining th" and run: "ar_running s"
    and alive: "ar_alive (ar_pc s)"
    by (cases "ar_caller s") auto
  from assms(4) c alive have joinable: "joinable th"
    by (simp add: ar_handle_inv_def ar_thread_joinable_def ar_own_handle_def)
  show ?thesis
  proof (cases "is_call ev")
    case True
    with False c show ?thesis by (simp add: ar_exec_def)
  next
    case nocall: False
    show ?thesis
    proof (cases ev)
      case Resume
      with False c run alive joinable show ?thesis
        by (simp add: ar_exec_def ar_resume_def td_join_def)
    next
      case ThreadStep
      with False c run alive show ?thesis
        by (cases "ar_pc s")
           (auto simp: ar_exec_def ar_thread_step_def ar_thread_code_def ar_own_handle_def
              ar_set_own_handle_def split: prod.splits sum.splits)
    next
      case EarlyPrologue
      with False c run alive show ?thesis
        by (cases "ar_pc s")
           (auto simp: ar_exec_def ar_early_prologue_def ar_own_handle_def ar_set_own_handle_def
              td_prologue_unassigned_eq)
    next
      case SpuriousWake
      with False c run alive show ?thesis
        by (cases "ar_pc s") (auto simp: ar_exec_def ar_spurious_wake_def)
    qed (use nocall in simp_all)
  qed
qed

lemma ar_dropped_while_running_is_never_destroyed:
  assumes "ar_handle_inv s" and "ar_caller s = NoCall" and "ar_fault s = None"
    and "ar_running s" and "ar_alive (ar_pc s)"
  shows "ar_caller (ar_exec_all os work (ar_exec os work s Destroy) evs) \<noteq> Destroyed"
proof -
  have step: "ar_handle_inv s' \<Longrightarrow> destructing (ar_caller s') \<and> ar_caller s' \<noteq> Destroyed
      \<and> (ar_fault s' \<noteq> None \<or> (ar_running s' \<and> ar_alive (ar_pc s')))
    \<Longrightarrow> ar_caller (ar_exec_all os work s' evs) \<noteq> Destroyed" for s'
    unfolding ar_exec_all_def
  proof (induction evs arbitrary: s')
    case Nil
    then show ?case by simp
  next
    case (Cons ev evs)
    from Cons.prems have inv: "ar_handle_inv (ar_exec os work s' ev)" by (simp add: ar_handle_inv_exec)
    from Cons.prems ar_dropped_step [of s' os work ev]
    have "destructing (ar_caller (ar_exec os work s' ev))
       \<and> ar_caller (ar_exec os work s' ev) \<noteq> Destroyed
       \<and> (ar_fault (ar_exec os work s' ev) \<noteq> None
            \<or> (ar_running (ar_exec os work s' ev) \<and> ar_alive (ar_pc (ar_exec os work s' ev))))"
      by blast
    from Cons.IH [OF inv this] show ?case by simp
  qed
  have "ar_handle_inv (ar_exec os work s Destroy)" using assms(1) by (rule ar_handle_inv_exec)
  moreover
  from ar_destroy_held [OF assms(1,2,5)] assms(2-5)
  have "destructing (ar_caller (ar_exec os work s Destroy))
      \<and> ar_caller (ar_exec os work s Destroy) \<noteq> Destroyed
      \<and> (ar_fault (ar_exec os work s Destroy) \<noteq> None
           \<or> (ar_running (ar_exec os work s Destroy)
                \<and> ar_alive (ar_pc (ar_exec os work s Destroy))))"
    by (auto simp: ar_exec_def ar_destroy_def ar_destroy_object_def Let_def
        split: option.splits)
  ultimately show ?thesis by (rule step)
qed

text \<open>
  C9 fails on a worker that is dropped while it runs. A Runnable on which \<open>run()\<close> was
  called and \<open>stop()\<close> was not is destroyed while its thread is at the head of the
  loop: the destructor is held in \<open>join\<close> with the thread alive and the flag still
  set, the thread enters the loop body and calls \<^verbatim>\<open>__work\<close> on the object that is
  being destroyed, and the destructor has not returned. An ActiveRunnable dropped
  while its thread waits in \<^verbatim>\<open>_cv.wait\<close> has its condition variable destroyed
  under the waiting thread; dropped while its thread is at the head of the loop, the
  thread goes on to lock the destroyed mutex.
\<close>

theorem worker_dropped_while_running:
  "r_alive (r_pc (r_exec_all failing_os noop_work fresh_runnable [RCallRun, RThreadStep]))
   \<and> is_held (r_destroy (r_exec_all failing_os noop_work fresh_runnable [RCallRun, RThreadStep]))
   \<and> r_running (r_exec_all failing_os noop_work fresh_runnable
        [RCallRun, RThreadStep, RDestroy])
   \<and> r_fault (r_exec_all failing_os noop_work fresh_runnable
        [RCallRun, RThreadStep, RDestroy]) = None
   \<and> r_pc (r_exec_all failing_os noop_work fresh_runnable
        [RCallRun, RThreadStep, RDestroy, RThreadStep]) = RInWork
   \<and> r_fault (r_exec_all failing_os noop_work fresh_runnable
        [RCallRun, RThreadStep, RDestroy, RThreadStep, RThreadStep]) = Some UndefinedBehaviour
   \<and> r_caller (r_exec_all failing_os noop_work fresh_runnable
        [RCallRun, RThreadStep, RDestroy, RThreadStep, RThreadStep, RResume]) \<noteq> Destroyed
   \<and> ar_pc (ar_exec_all failing_os echo_work fresh_active
        [CallRun, ThreadStep, ThreadStep, ThreadStep]) = Waiting
   \<and> is_held (ar_destroy (ar_exec_all failing_os echo_work fresh_active
        [CallRun, ThreadStep, ThreadStep, ThreadStep]))
   \<and> ar_fault (ar_exec_all failing_os echo_work fresh_active
        [CallRun, ThreadStep, ThreadStep, ThreadStep, Destroy]) = Some UndefinedBehaviour
   \<and> ar_fault (ar_exec_all failing_os echo_work fresh_active
        [CallRun, ThreadStep, Destroy, ThreadStep]) = None
   \<and> ar_fault (ar_exec_all failing_os echo_work fresh_active
        [CallRun, ThreadStep, Destroy, ThreadStep, ThreadStep]) = Some UndefinedBehaviour
   \<and> ar_caller (ar_exec_all failing_os echo_work fresh_active
        [CallRun, ThreadStep, Destroy, ThreadStep, ThreadStep, Resume]) \<noteq> Destroyed"
  by (simp add: fresh_runnable_def fresh_active_def r_defs ar_defs td_defs failing_os_def
        noop_work_def echo_work_def)

section \<open>The promises of queued tasks\<close>

lemma ar_promises_inv_init: "ar_promises_inv (ar_init os w)"
  by (simp add: ar_promises_inv_def ar_init_def)

lemma ar_promises_inv_frame:
  assumes "ar_promises_inv s"
    and "ar_tasks s' = ar_tasks s" and "ar_promises s' = ar_promises s"
    and "ar_pc s' = ar_pc s \<or> (\<forall>d p. ar_pc s' \<noteq> Working d p)"
  shows "ar_promises_inv s'"
  using assms by (auto simp: ar_promises_inv_def split: apc.splits)

lemma notify_one_Working [simp]: "(notify_one pc = Working d p) = (pc = Working d p)"
  by (cases pc) simp_all

lemma ar_spawn_frame:
  "ar_tasks (ar_spawn os s) = ar_tasks s \<and> ar_promises (ar_spawn os s) = ar_promises s
   \<and> (ar_pc (ar_spawn os s) = ar_pc s \<or> ar_pc (ar_spawn os s) = Prologue)"
  by (auto simp: ar_spawn_def split: option.splits prod.splits)

lemma ar_run_frame:
  "ar_tasks (state_after s (ar_run os s)) = ar_tasks s
   \<and> ar_promises (state_after s (ar_run os s)) = ar_promises s
   \<and> (ar_pc (state_after s (ar_run os s)) = ar_pc s
        \<or> ar_pc (state_after s (ar_run os s)) = Prologue)"
  using ar_spawn_frame [of os "s\<lparr>ar_running := True, ar_t := Some (td_create os)\<rparr>"]
  by (auto simp: ar_run_def Let_def split: option.splits)

lemma length_fold_break_promise [simp]:
  "length (fold break_promise ps qs) = length qs"
  by (induction ps arbitrary: qs) (simp_all add: break_promise_def)

lemma nth_fold_break_promise:
  "i < length qs \<Longrightarrow>
   fold break_promise ps qs ! i
     = (if i \<in> set ps \<and> qs ! i = Pending then Failed BrokenPromise else qs ! i)"
proof (induction ps arbitrary: qs)
  case Nil
  then show ?case by simp
next
  case (Cons p ps)
  from Cons.prems have "i < length (break_promise p qs)" by (simp add: break_promise_def)
  from Cons.IH [OF this] Cons.prems show ?case
    by (auto simp: break_promise_def nth_list_update)
qed

lemma ar_destroy_frame:
  "ar_tasks (state_after s (ar_destroy s)) = []
   \<and> ar_promises (state_after s (ar_destroy s))
       = fold break_promise (map snd (ar_tasks s)) (ar_promises s)
   \<and> ar_pc (state_after s (ar_destroy s)) = ar_pc s
   \<and> ar_running (state_after s (ar_destroy s)) = ar_running s
   \<and> destructing (ar_caller (state_after s (ar_destroy s)))"
  by (auto simp: ar_destroy_def ar_destroy_object_def Let_def split: option.splits)

lemma ar_promises_inv_fault [simp]:
  "ar_promises_inv (s\<lparr>ar_fault := f\<rparr>) = ar_promises_inv s"
  by (simp add: ar_promises_inv_def split: apc.splits)

lemma ar_promises_inv_destroy:
  assumes "ar_promises_inv s"
  shows "ar_promises_inv (state_after s (ar_destroy s))"
proof (cases "ar_pc s")
  case (Working d p)
  with assms have p: "p < length (ar_promises s)" "ar_promises s ! p = Pending"
    and "\<forall>t \<in> set (ar_tasks s). p \<noteq> snd t"
    by (simp_all add: ar_promises_inv_def)
  then have "p \<notin> set (map snd (ar_tasks s))" by auto
  with p have "fold break_promise (map snd (ar_tasks s)) (ar_promises s) ! p = Pending"
    by (simp add: nth_fold_break_promise)
  with p Working ar_destroy_frame [of s] show ?thesis
    by (simp add: ar_promises_inv_def)
qed (use ar_destroy_frame [of s] in \<open>simp_all add: ar_promises_inv_def\<close>)

lemma ar_early_prologue_frame:
  "ar_tasks (ar_early_prologue os s) = ar_tasks s
   \<and> ar_promises (ar_early_prologue os s) = ar_promises s
   \<and> ar_running (ar_early_prologue os s) = ar_running s
   \<and> (ar_pc (ar_early_prologue os s) = ar_pc s \<or> ar_pc (ar_early_prologue os s) = LoopHead)"
  by (auto simp: ar_early_prologue_def td_prologue_unassigned_eq ar_set_own_handle_def
      split: apc.splits option.splits caller.splits)

lemma ar_resume_frame:
  "ar_tasks (ar_resume os s) = ar_tasks s \<and> ar_promises (ar_resume os s) = ar_promises s
   \<and> (ar_pc (ar_resume os s) = ar_pc s \<or> ar_pc (ar_resume os s) = Prologue)"
  using ar_spawn_frame [of os "s\<lparr>ar_caller := NoCall\<rparr>"]
  by (auto simp: ar_resume_def split: caller.splits option.splits)

lemma ar_set_priority_frame:
  "ar_tasks (snd (ar_set_priority os p s)) = ar_tasks s
   \<and> ar_promises (snd (ar_set_priority os p s)) = ar_promises s
   \<and> ar_pc (snd (ar_set_priority os p s)) = ar_pc s"
  by (auto simp: ar_set_priority_def Let_def split: option.splits prod.splits)

lemma ar_set_name_frame:
  "ar_tasks (ar_set_name n s) = ar_tasks s \<and> ar_promises (ar_set_name n s) = ar_promises s
   \<and> ar_pc (ar_set_name n s) = ar_pc s"
  by (auto simp: ar_set_name_def Let_def split: option.splits)

lemma ar_leave_loop_frame:
  "ar_tasks (ar_leave_loop s) = ar_tasks s \<and> ar_promises (ar_leave_loop s) = ar_promises s
   \<and> (ar_pc (ar_leave_loop s) = ar_pc s \<or> ar_pc (ar_leave_loop s) = Exited)"
  by (auto simp: ar_leave_loop_def ar_set_own_handle_def split: option.splits caller.splits)

lemma ar_promises_inv_notify:
  assumes "ar_promises_inv s"
  shows "ar_promises_inv (snd (ar_notify d s))"
  using assms
  by (auto simp: ar_promises_inv_def ar_notify_def Let_def nth_append split: apc.splits)

lemma ar_promises_inv_take_task:
  assumes "ar_promises_inv s" and "\<forall>d p. ar_pc s \<noteq> Working d p"
  shows "ar_promises_inv (ar_take_task s)"
proof (cases "ar_running s")
  case False
  then have "ar_take_task s = ar_leave_loop s" by (simp add: ar_take_task_def)
  with ar_leave_loop_frame [of s] assms show ?thesis
    by (auto intro: ar_promises_inv_frame)
next
  case True
  show ?thesis
  proof (cases "ar_tasks s")
    case Nil
    with True assms show ?thesis
      by (auto simp: ar_take_task_def ar_promises_inv_def split: apc.splits)
  next
    case (Cons t rest)
    from assms(1) Cons have "\<forall>u \<in> set rest. snd t \<noteq> snd u"
      by (auto simp: ar_promises_inv_def image_iff)
    with True Cons assms(1) show ?thesis
      by (simp add: ar_take_task_def ar_promises_inv_def)
  qed
qed

lemma ar_promises_inv_thread_code:
  assumes "ar_promises_inv s"
  shows "ar_promises_inv (ar_thread_code os work s)"
proof (cases "ar_pc s")
  case Prologue
  with assms show ?thesis
    by (auto simp: ar_thread_code_def ar_promises_inv_def ar_set_own_handle_def
        split: option.splits prod.splits caller.splits)
next
  case LoopHead
  with assms ar_leave_loop_frame [of s] show ?thesis
    by (auto simp: ar_thread_code_def ar_promises_inv_def split: apc.splits)
next
  case Locking
  with assms ar_promises_inv_take_task [OF assms] show ?thesis
    by (auto simp: ar_thread_code_def ar_promises_inv_def)
next
  case Woken
  with assms ar_promises_inv_take_task [OF assms] show ?thesis
    by (auto simp: ar_thread_code_def)
next
  case (Working d p)
  show ?thesis
  proof (cases "work (ar_members s) d")
    case (Inl e)
    with Working assms show ?thesis
      by (simp add: ar_thread_code_def ar_promises_inv_def)
  next
    case (Inr vw)
    obtain v w' where vw: "vw = (v, w')" by (cases vw)
    from assms Working have p: "p < length (ar_promises s)" "ar_promises s ! p = Pending"
      and others: "\<forall>t \<in> set (ar_tasks s). p \<noteq> snd t"
      by (simp_all add: ar_promises_inv_def)
    from assms have "\<forall>t \<in> set (ar_tasks s). snd t < length (ar_promises s)
        \<and> ar_promises s ! snd t = Pending"
      by (simp add: ar_promises_inv_def)
    with others have "\<forall>t \<in> set (ar_tasks s). snd t < length (ar_promises s)
        \<and> (ar_promises s)[p := Ready v] ! snd t = Pending"
      by (simp add: nth_list_update)
    moreover from assms have "distinct (map snd (ar_tasks s))"
      by (simp add: ar_promises_inv_def)
    ultimately show ?thesis
      using Working Inr vw p
      by (simp add: ar_thread_code_def ar_set_value_def ar_promises_inv_def)
  qed
qed (use assms in \<open>simp_all add: ar_thread_code_def\<close>)

lemma ar_thread_step_NoCall:
  "ar_caller s = NoCall \<Longrightarrow> ar_thread_step os work s = ar_thread_code os work s"
  by (simp add: ar_thread_step_def)

lemma ar_early_prologue_NoCall:
  assumes "ar_caller s = NoCall" and "ar_t s = Some th"
  shows "ar_early_prologue os s = (if ar_pc s = Prologue then s\<lparr>ar_pc := LoopHead\<rparr> else s)"
  using assms
  by (cases "ar_pc s")
     (simp_all add: ar_early_prologue_def td_prologue_unassigned_eq ar_own_handle_def
        ar_set_own_handle_def)

lemma ar_promises_inv_thread_step:
  "ar_promises_inv s \<Longrightarrow> ar_promises_inv (ar_thread_step os work s)"
  by (simp add: ar_thread_step_def ar_promises_inv_thread_code)

lemma ar_promises_inv_exec:
  assumes "ar_promises_inv s"
  shows "ar_promises_inv (ar_exec os work s ev)"
proof (cases "ar_fault s \<noteq> None \<or> ar_caller s = Destroyed")
  case True
  with assms show ?thesis by (simp add: ar_exec_def)
next
  case False
  show ?thesis
  proof (cases "destructing (ar_caller s) \<and> is_call ev")
    case True
    with False assms show ?thesis by (simp add: ar_exec_def)
  next
    case call: False
    show ?thesis
    proof (cases ev)
    case CallRun
    with False call assms ar_run_frame [of s os] show ?thesis
      by (auto simp: ar_exec_def intro: ar_promises_inv_frame)
  next
    case CallStop
    with False call assms show ?thesis
      by (auto simp: ar_exec_def ar_stop_def ar_promises_inv_def split: apc.splits)
  next
    case (CallNotify d)
    with False call ar_promises_inv_notify [OF assms] show ?thesis by (simp add: ar_exec_def)
  next
    case (CallSetPriority p)
    with False call assms ar_set_priority_frame [of os p s] show ?thesis
      by (auto simp: ar_exec_def intro: ar_promises_inv_frame)
  next
    case (CallSetName n)
    with False call assms ar_set_name_frame [of n s] show ?thesis
      by (auto simp: ar_exec_def intro: ar_promises_inv_frame)
  next
    case Destroy
    with False call assms ar_promises_inv_destroy [OF assms] show ?thesis
      by (simp add: ar_exec_def)
  next
    case Resume
    with False call assms ar_resume_frame [of os s] show ?thesis
      by (auto simp: ar_exec_def intro: ar_promises_inv_frame)
  next
    case ThreadStep
    with False call ar_promises_inv_thread_step [OF assms] show ?thesis by (simp add: ar_exec_def)
  next
    case SpuriousWake
    with False call assms show ?thesis
      by (auto simp: ar_exec_def ar_spurious_wake_def ar_promises_inv_def split: apc.splits)
  next
      case EarlyPrologue
      with False assms ar_early_prologue_frame [of os s] show ?thesis
        by (auto simp: ar_exec_def intro: ar_promises_inv_frame)
    qed
  qed
qed

lemma ar_promises_inv_exec_all:
  "ar_promises_inv s \<Longrightarrow> ar_promises_inv (ar_exec_all os work s evs)"
  unfolding ar_exec_all_def
  by (induction evs arbitrary: s) (simp_all add: ar_promises_inv_exec)

lemma ar_exec_all_append:
  "ar_exec_all os work s (evs @ evs') = ar_exec_all os work (ar_exec_all os work s evs) evs'"
  by (simp add: ar_exec_all_def)

lemma ar_exec_all_dead:
  "ar_fault s \<noteq> None \<or> ar_caller s = Destroyed \<Longrightarrow> ar_exec_all os work s evs = s"
  unfolding ar_exec_all_def
  by (induction evs) (simp_all add: ar_exec_def)

lemma ar_thread_code_stopped_tasks:
  assumes "\<not> ar_running s"
  shows "ar_tasks (ar_thread_code os work s) = ar_tasks s"
proof (cases "ar_pc s")
  case Prologue
  then show ?thesis
    by (auto simp: ar_thread_code_def ar_set_own_handle_def
        split: option.splits prod.splits caller.splits)
next
  case LoopHead
  with assms ar_leave_loop_frame [of s] show ?thesis by (simp add: ar_thread_code_def)
next
  case Locking
  with assms ar_leave_loop_frame [of s] show ?thesis
    by (simp add: ar_thread_code_def ar_take_task_def)
next
  case Woken
  with assms ar_leave_loop_frame [of s] show ?thesis
    by (simp add: ar_thread_code_def ar_take_task_def)
next
  case (Working d p)
  then show ?thesis
    by (auto simp: ar_thread_code_def ar_set_value_def split: sum.splits prod.splits)
qed (simp_all add: ar_thread_code_def)

lemma ar_thread_code_stopped_promises:
  assumes "\<not> ar_running s"
  shows "length (ar_promises (ar_thread_code os work s)) = length (ar_promises s)
       \<and> (\<forall>i. (\<forall>d. ar_pc s \<noteq> Working d i)
              \<longrightarrow> ar_promises (ar_thread_code os work s) ! i = ar_promises s ! i)
       \<and> (ar_pc (ar_thread_code os work s) = ar_pc s
            \<or> (\<forall>d p. ar_pc (ar_thread_code os work s) \<noteq> Working d p))"
proof (cases "ar_pc s")
  case Prologue
  then show ?thesis
    by (auto simp: ar_thread_code_def ar_set_own_handle_def
        split: option.splits prod.splits caller.splits)
next
  case LoopHead
  with assms ar_leave_loop_frame [of s] show ?thesis by (auto simp: ar_thread_code_def)
next
  case Locking
  with assms ar_leave_loop_frame [of s] show ?thesis
    by (auto simp: ar_thread_code_def ar_take_task_def)
next
  case Woken
  with assms ar_leave_loop_frame [of s] show ?thesis
    by (auto simp: ar_thread_code_def ar_take_task_def)
next
  case (Working d p)
  then show ?thesis
    by (auto simp: ar_thread_code_def ar_set_value_def nth_list_update
        split: sum.splits prod.splits)
qed (simp_all add: ar_thread_code_def)

lemma ar_thread_code_destructing:
  "destructing (ar_caller (ar_thread_code os work s)) = destructing (ar_caller s)"
proof (cases "ar_pc s")
  case (Working d p)
  then show ?thesis
    by (auto simp: ar_thread_code_def ar_set_value_def split: sum.splits prod.splits)
qed (auto simp: ar_thread_code_def ar_take_task_def ar_leave_loop_def ar_set_own_handle_def
       split: option.splits prod.splits caller.splits list.splits)

lemma ar_early_prologue_destructing:
  "destructing (ar_caller (ar_early_prologue os s)) = destructing (ar_caller s)"
  by (auto simp: ar_early_prologue_def td_prologue_unassigned_eq ar_set_own_handle_def
      split: apc.splits option.splits caller.splits)

lemma ar_resume_destructing:
  "destructing (ar_caller (ar_resume os s)) = destructing (ar_caller s)"
  by (auto simp: ar_resume_def ar_spawn_def split: caller.splits option.splits prod.splits)

lemma ar_resume_fault_pc:
  "destructing (ar_caller s) \<Longrightarrow>
   ar_fault (ar_resume os s) = ar_fault s \<and> ar_pc (ar_resume os s) = ar_pc s"
  by (auto simp: ar_resume_def split: caller.splits option.splits)

lemma ar_run_not_destructing:
  "ar_caller s = NoCall \<Longrightarrow> \<not> destructing (ar_caller (state_after s (ar_run os s)))"
  by (auto simp: ar_run_def ar_spawn_def Let_def split: option.splits prod.splits)

lemma ar_destruct_inv_init: "ar_destruct_inv (ar_init os w)"
  by (simp add: ar_destruct_inv_def ar_init_def)

lemma ar_destruct_inv_thread_step:
  assumes "ar_destruct_inv s"
  shows "ar_destruct_inv (ar_thread_step os work s)"
proof (cases "destructing (ar_caller s)")
  case False
  then show ?thesis
    by (simp add: ar_thread_step_def ar_destruct_inv_def ar_thread_code_destructing)
next
  case True
  show ?thesis
  proof (cases "ar_touches_object (ar_pc s)")
    case touches: True
    with True assms show ?thesis by (simp add: ar_thread_step_def ar_destruct_inv_def)
  next
    case False
    with True assms show ?thesis
      by (cases "ar_pc s")
         (auto simp: ar_thread_step_def ar_thread_code_def ar_destruct_inv_def
            ar_leave_loop_def ar_set_own_handle_def
          split: option.splits prod.splits caller.splits)
  qed
qed

lemma ar_destruct_inv_exec:
  assumes "ar_destruct_inv s"
  shows "ar_destruct_inv (ar_exec os work s ev)"
proof (cases "ar_fault s \<noteq> None \<or> ar_caller s = Destroyed")
  case True
  with assms show ?thesis by (simp add: ar_exec_def)
next
  case False
  show ?thesis
  proof (cases "destructing (ar_caller s) \<and> is_call ev")
    case True
    with False assms show ?thesis by (simp add: ar_exec_def ar_destruct_inv_def)
  next
    case call: False
    show ?thesis
    proof (cases ev)
      case CallRun
      with False call ar_run_not_destructing [of s os] show ?thesis
        by (auto simp: ar_exec_def ar_destruct_inv_def)
    next
      case CallStop
      with False call show ?thesis by (simp add: ar_exec_def ar_stop_def ar_destruct_inv_def)
    next
      case (CallNotify d)
      with False call show ?thesis
        by (simp add: ar_exec_def ar_notify_def ar_destruct_inv_def Let_def)
    next
      case (CallSetPriority p)
      with False call show ?thesis
        by (auto simp: ar_exec_def ar_set_priority_def ar_destruct_inv_def Let_def
            split: option.splits prod.splits)
    next
      case (CallSetName n)
      with False call show ?thesis
        by (auto simp: ar_exec_def ar_set_name_def ar_destruct_inv_def Let_def
            split: option.splits)
    next
      case Destroy
      with False call assms show ?thesis
        by (cases "ar_pc s")
           (auto simp: ar_exec_def ar_destroy_def ar_destroy_object_def ar_destruct_inv_def
              Let_def split: option.splits)
    next
      case Resume
      show ?thesis
      proof (cases "destructing (ar_caller s)")
        case True
        with False Resume assms ar_resume_destructing [of os s] ar_resume_fault_pc [of s os]
          ar_resume_frame [of os s]
        show ?thesis by (auto simp: ar_exec_def ar_destruct_inv_def)
      next
        case nd: False
        with False Resume ar_resume_destructing [of os s] show ?thesis
          by (simp add: ar_exec_def ar_destruct_inv_def)
      qed
    next
      case ThreadStep
      with False ar_destruct_inv_thread_step [OF assms] show ?thesis by (simp add: ar_exec_def)
    next
      case EarlyPrologue
      with False assms ar_early_prologue_frame [of os s] ar_early_prologue_destructing [of os s]
      show ?thesis
        by (cases "ar_pc s")
           (auto simp: ar_exec_def ar_destruct_inv_def ar_early_prologue_def
              td_prologue_unassigned_eq ar_set_own_handle_def
            split: option.splits caller.splits)
    next
      case SpuriousWake
      with False assms show ?thesis
        by (simp add: ar_exec_def ar_spurious_wake_def ar_destruct_inv_def)
    qed
  qed
qed

lemma ar_destruct_inv_exec_all:
  "ar_destruct_inv s \<Longrightarrow> ar_destruct_inv (ar_exec_all os work s evs)"
  unfolding ar_exec_all_def
  by (induction evs arbitrary: s) (simp_all add: ar_destruct_inv_exec)

lemma abandoned_fault [simp]: "abandoned t (s\<lparr>ar_fault := f\<rparr>) = abandoned t s"
  by (simp add: abandoned_def)

lemma abandoned_frame:
  assumes "abandoned t s"
    and "ar_running s' = ar_running s" and "ar_tasks s' = ar_tasks s"
    and "ar_promises s' = ar_promises s"
    and "destructing (ar_caller s') = destructing (ar_caller s)"
    and "ar_pc s' = ar_pc s \<or> (\<forall>d p. ar_pc s' \<noteq> Working d p)"
  shows "abandoned t s'"
  using assms by (auto simp: abandoned_def)

lemma abandoned_destroy:
  assumes "abandoned t s" and "ar_promises_inv s" and "ar_caller s = NoCall"
  shows "abandoned t (state_after s (ar_destroy s))"
proof -
  from assms have t: "t \<in> set (ar_tasks s)" and len: "snd t < length (ar_promises s)"
    and pc: "\<forall>d. ar_pc s \<noteq> Working d (snd t)" and st: "\<not> ar_running s"
    by (simp_all add: abandoned_def)
  from t assms(2) have "ar_promises s ! snd t = Pending" by (simp add: ar_promises_inv_def)
  moreover from t have "snd t \<in> set (map snd (ar_tasks s))" by auto
  ultimately have "fold break_promise (map snd (ar_tasks s)) (ar_promises s) ! snd t
      = Failed BrokenPromise"
    using len by (simp add: nth_fold_break_promise)
  with len pc st ar_destroy_frame [of s] show ?thesis by (simp add: abandoned_def)
qed

lemma abandoned_thread_step:
  assumes "abandoned t s"
  shows "abandoned t (ar_thread_step os work s)"
proof (cases "destructing (ar_caller s) \<and> ar_touches_object (ar_pc s)")
  case True
  with assms show ?thesis by (simp add: ar_thread_step_def)
next
  case False
  from assms have st: "\<not> ar_running s" by (simp add: abandoned_def)
  from ar_thread_code_stopped_promises [OF st, of os work]
    ar_thread_code_stopped_tasks [OF st, of os work]
    ar_thread_code_destructing [of os work s] assms st False
  show ?thesis
    by (auto simp: ar_thread_step_def abandoned_def ar_thread_code_running)
qed

lemma abandoned_exec:
  assumes "abandoned t s" and "ar_promises_inv s" and "ev \<noteq> CallRun"
  shows "abandoned t (ar_exec os work s ev)"
proof (cases "ar_fault s \<noteq> None \<or> ar_caller s = Destroyed")
  case True
  with assms show ?thesis by (simp add: ar_exec_def)
next
  case False
  show ?thesis
  proof (cases "destructing (ar_caller s) \<and> is_call ev")
    case True
    with False assms show ?thesis by (simp add: ar_exec_def)
  next
    case call: False
    show ?thesis
    proof (cases ev)
      case CallRun
      with assms show ?thesis by simp
    next
      case CallStop
      with False call assms(1) show ?thesis
        by (simp add: ar_exec_def ar_stop_def abandoned_def)
    next
      case (CallNotify d)
      with False call assms(1) show ?thesis
        by (simp add: ar_exec_def ar_notify_def abandoned_def Let_def nth_append)
    next
      case (CallSetPriority p)
      with False call assms(1) show ?thesis
        by (auto simp: ar_exec_def ar_set_priority_def abandoned_def Let_def)
    next
      case (CallSetName n)
      with False call assms(1) show ?thesis
        by (auto simp: ar_exec_def ar_set_name_def abandoned_def Let_def)
    next
      case Destroy
      with False call assms(1) abandoned_destroy [OF assms(1,2)] show ?thesis
        by (simp add: ar_exec_def)
    next
      case Resume
      from assms(1) have "\<not> ar_running s" by (simp add: abandoned_def)
      then have "ar_running (ar_resume os s) = ar_running s"
        by (auto simp: ar_resume_def ar_spawn_running split: caller.splits option.splits)
      with False Resume assms(1) ar_resume_frame [of os s] ar_resume_destructing [of os s]
      show ?thesis
        by (auto simp: ar_exec_def intro: abandoned_frame)
    next
      case ThreadStep
      with False abandoned_thread_step [OF assms(1)] show ?thesis by (simp add: ar_exec_def)
    next
      case EarlyPrologue
      with False assms(1) ar_early_prologue_frame [of os s]
        ar_early_prologue_destructing [of os s]
      show ?thesis
        by (auto simp: ar_exec_def intro: abandoned_frame)
    next
      case SpuriousWake
      with False assms(1) show ?thesis
        by (simp add: ar_exec_def ar_spurious_wake_def abandoned_def)
    qed
  qed
qed

lemma abandoned_exec_all:
  assumes "abandoned t s" and "ar_promises_inv s" and "CallRun \<notin> set evs"
  shows "abandoned t (ar_exec_all os work s evs)"
  using assms unfolding ar_exec_all_def
proof (induction evs arbitrary: s)
  case Nil
  then show ?case by simp
next
  case (Cons ev evs)
  from Cons.prems have "ev \<noteq> CallRun" by auto
  with Cons.prems have "abandoned t (ar_exec os work s ev)"
    by (simp add: abandoned_exec)
  moreover from Cons.prems have "ar_promises_inv (ar_exec os work s ev)"
    by (simp add: ar_promises_inv_exec)
  ultimately show ?case using Cons.IH Cons.prems by simp
qed

text \<open>
  C4. Let \<open>s\<close> be a state an ActiveRunnable has reached in which the flag is false
  (\<open>stop()\<close> has been called), and \<open>t\<close> a task queued in \<open>s\<close>. After any further events
  among which \<open>run()\<close> is not called again, the thread does not hold \<open>t\<close> and the
  promise of \<open>t\<close> holds no result: while the object lives \<open>t\<close> is still in the queue
  and its promise is unsatisfied, and once the object is being destroyed, which
  destroys the queue and with it the promise, the promise holds the error
  \<^verbatim>\<open>broken_promise\<close>. When the thread next tests the flag (at the head of the
  loop, or with the lock after a wait) on the living object, it leaves the loop with
  the queue and the promises as they were.
\<close>

theorem stopped_worker_abandons_queued_tasks:
  assumes "s = ar_exec_all os work (ar_init os w) evs0"
    and "\<not> ar_running s" and "CallRun \<notin> set evs" and "t \<in> set (ar_tasks s)"
    and "s' = ar_exec_all os work s evs"
  shows "ar_pc s' \<noteq> Working (fst t) (snd t)
       \<and> snd t < length (ar_promises s')
       \<and> (\<forall>v. ar_promises s' ! snd t \<noteq> Ready v)
       \<and> ar_promises s' ! snd t
           = (if destructing (ar_caller s') then Failed BrokenPromise else Pending)
       \<and> (\<not> destructing (ar_caller s') \<longrightarrow> t \<in> set (ar_tasks s'))
       \<and> (ar_fault s' = None \<and> \<not> destructing (ar_caller s')
            \<and> (ar_pc s' = LoopHead \<or> ar_pc s' = Locking \<or> ar_pc s' = Woken)
          \<longrightarrow> ar_pc (ar_exec os work s' ThreadStep) = Exited
              \<and> ar_tasks (ar_exec os work s' ThreadStep) = ar_tasks s'
              \<and> ar_promises (ar_exec os work s' ThreadStep) = ar_promises s')"
proof -
  have pinv0: "ar_promises_inv s"
    unfolding assms(1) by (rule ar_promises_inv_exec_all [OF ar_promises_inv_init])
  have "ar_destruct_inv s"
    unfolding assms(1) by (rule ar_destruct_inv_exec_all [OF ar_destruct_inv_init])
  with assms(4) have alive0: "\<not> destructing (ar_caller s)"
    by (auto simp: ar_destruct_inv_def)
  from pinv0 assms(4) have "snd t < length (ar_promises s)"
    and "\<forall>d. ar_pc s \<noteq> Working d (snd t)"
    by (auto simp: ar_promises_inv_def)
  with assms(2,4) alive0 have "abandoned t s" by (simp add: abandoned_def)
  from abandoned_exec_all [OF this pinv0 assms(3)] assms(5)
  have ab: "abandoned t s'" by simp
  have s': "s' = ar_exec_all os work (ar_init os w) (evs0 @ evs)"
    by (simp add: assms(1,5) ar_exec_all_append)
  have pinv: "ar_promises_inv s'"
    unfolding s' by (rule ar_promises_inv_exec_all [OF ar_promises_inv_init])
  have hinv: "ar_handle_inv s'"
    unfolding s' by (rule ar_handle_inv_exec_all [OF ar_handle_inv_init])
  from ab have stopped: "\<not> ar_running s'" and len: "snd t < length (ar_promises s')"
    and not_taken: "ar_pc s' \<noteq> Working (fst t) (snd t)"
    by (simp_all add: abandoned_def)
  from ab have queued: "\<not> destructing (ar_caller s') \<longrightarrow> t \<in> set (ar_tasks s')"
    by (simp add: abandoned_def)
  have promise: "ar_promises s' ! snd t
      = (if destructing (ar_caller s') then Failed BrokenPromise else Pending)"
  proof (cases "destructing (ar_caller s')")
    case True
    with ab show ?thesis by (simp add: abandoned_def)
  next
    case False
    with queued pinv show ?thesis by (simp add: ar_promises_inv_def)
  qed
  then have unanswered: "\<forall>v. ar_promises s' ! snd t \<noteq> Ready v" by simp
  have "ar_pc (ar_exec os work s' ThreadStep) = Exited
      \<and> ar_tasks (ar_exec os work s' ThreadStep) = ar_tasks s'
      \<and> ar_promises (ar_exec os work s' ThreadStep) = ar_promises s'"
    if live: "ar_fault s' = None" "\<not> destructing (ar_caller s')"
      and pc: "ar_pc s' = LoopHead \<or> ar_pc s' = Locking \<or> ar_pc s' = Woken"
  proof -
    from pc have "ar_alive (ar_pc s')" by auto
    with hinv obtain th where th: "ar_own_handle s' = Some th"
      by (auto simp: ar_handle_inv_def ar_thread_joinable_def split: option.splits)
    from queued live have ne: "ar_tasks s' \<noteq> []" by auto
    from pc stopped ne have "ar_thread_code os work s' = ar_leave_loop s'"
      by (auto simp: ar_thread_code_def ar_take_task_def)
    moreover from live have "ar_caller s' \<noteq> Destroyed" by auto
    ultimately show ?thesis using live th
      by (auto simp: ar_exec_def ar_thread_step_def ar_leave_loop_def ar_set_own_handle_def
          split: caller.splits)
  qed
  with not_taken len unanswered promise queued show ?thesis by blast
qed

theorem stopped_worker_abandons_queued_tasks_witness:
  "(7, 0) \<in> set (ar_tasks (ar_exec_all failing_os echo_work
       (ar_exec_all failing_os echo_work fresh_active stop_history) [CallNotify 8]))
   \<and> ar_promises (ar_exec_all failing_os echo_work
       (ar_exec_all failing_os echo_work fresh_active stop_history) [CallNotify 8]) ! 0 = Pending
   \<and> ar_pc (ar_exec failing_os echo_work (ar_exec_all failing_os echo_work
       (ar_exec_all failing_os echo_work fresh_active stop_history) [CallNotify 8]) ThreadStep)
      = Exited
   \<and> ar_tasks (ar_exec failing_os echo_work (ar_exec_all failing_os echo_work
       (ar_exec_all failing_os echo_work fresh_active stop_history) [CallNotify 8]) ThreadStep)
      = [(7, 0), (8, 1)]
   \<and> ar_caller (ar_exec_all failing_os echo_work
       (ar_exec_all failing_os echo_work fresh_active stop_history)
       [CallNotify 8, ThreadStep, Destroy]) = Destroyed
   \<and> ar_promises (ar_exec_all failing_os echo_work
       (ar_exec_all failing_os echo_work fresh_active stop_history)
       [CallNotify 8, ThreadStep, Destroy]) ! 0 = Failed BrokenPromise"
  using stopped_worker_abandons_queued_tasks
    [where s = "ar_exec_all failing_os echo_work fresh_active stop_history"
       and os = failing_os and work = echo_work and w = "- 1" and ?evs0.0 = stop_history
       and evs = "[CallNotify 8]" and t = "(7, 0)"
       and s' = "ar_exec_all failing_os echo_work
          (ar_exec_all failing_os echo_work fresh_active stop_history) [CallNotify 8]"]
    stopped_worker_abandons_queued_tasks
    [where s = "ar_exec_all failing_os echo_work fresh_active stop_history"
       and os = failing_os and work = echo_work and w = "- 1" and ?evs0.0 = stop_history
       and evs = "[CallNotify 8, ThreadStep, Destroy]" and t = "(7, 0)"
       and s' = "ar_exec_all failing_os echo_work
          (ar_exec_all failing_os echo_work fresh_active stop_history)
          [CallNotify 8, ThreadStep, Destroy]"]
  by (simp add: stop_history_def fresh_active_def echo_work_def ar_defs td_defs failing_os_def)

text \<open>
  C6 as the specification states it fails: with the tasks \<open>1\<close> and \<open>2\<close> queued and a
  work step that throws on \<open>1\<close>, the promise of the first task never holds the error,
  the second task stays in the queue with its promise unsatisfied, and the process has
  ended in \<^verbatim>\<open>std::terminate\<close>.
\<close>

theorem work_error_ends_dispatch_counterexample:
  "ar_promises (ar_exec_all failing_os fragile_work fresh_active
      [CallRun, CallNotify 1, CallNotify 2, ThreadStep, ThreadStep, ThreadStep, ThreadStep,
       ThreadStep, ThreadStep, ThreadStep, ThreadStep]) = [Pending, Pending]
   \<and> ar_tasks (ar_exec_all failing_os fragile_work fresh_active
      [CallRun, CallNotify 1, CallNotify 2, ThreadStep, ThreadStep, ThreadStep, ThreadStep,
       ThreadStep, ThreadStep, ThreadStep, ThreadStep]) = [(2, 1)]
   \<and> ar_fault (ar_exec_all failing_os fragile_work fresh_active
      [CallRun, CallNotify 1, CallNotify 2, ThreadStep, ThreadStep, ThreadStep, ThreadStep,
       ThreadStep, ThreadStep, ThreadStep, ThreadStep]) = Some (Uncaught (WorkException ''boom''))"
  by (simp add: fresh_active_def fragile_work_def ar_defs td_defs failing_os_def)

text \<open>
  C6, amended. An exception thrown by the work step while the thread holds a task is
  not caught: it leaves the dispatch loop and the thread's function. The promise of
  that task and the promises of the tasks still queued stay unsatisfied, and no later
  event changes anything.
\<close>

theorem work_error_ends_dispatch:
  assumes "s = ar_exec_all os work (ar_init os w) evs0"
    and "ar_fault s = None" and "ar_caller s \<noteq> Destroyed"
    and "ar_pc s = Working d p" and "work (ar_members s) d = Inl e"
    and "s' = ar_exec os work s ThreadStep"
  shows "ar_fault s' = Some (Uncaught e)
       \<and> ar_promises s' = ar_promises s
       \<and> ar_promises s' ! p = Pending
       \<and> ar_tasks s' = ar_tasks s
       \<and> (\<forall>t \<in> set (ar_tasks s'). ar_promises s' ! snd t = Pending)
       \<and> ar_exec_all os work s' evs = s'"
proof -
  have pinv: "ar_promises_inv s"
    unfolding assms(1) by (rule ar_promises_inv_exec_all [OF ar_promises_inv_init])
  have "ar_destruct_inv s"
    unfolding assms(1) by (rule ar_destruct_inv_exec_all [OF ar_destruct_inv_init])
  with assms(2,4) have "\<not> destructing (ar_caller s)"
    by (auto simp: ar_destruct_inv_def)
  with assms(2-6) have s': "s' = s\<lparr>ar_fault := Some (Uncaught e)\<rparr>"
    by (simp add: ar_exec_def ar_thread_step_def ar_thread_code_def)
  from pinv assms(4) have "ar_promises s ! p = Pending"
    and "\<forall>t \<in> set (ar_tasks s). ar_promises s ! snd t = Pending"
    by (simp_all add: ar_promises_inv_def)
  moreover have "ar_exec_all os work s' evs = s'"
    by (rule ar_exec_all_dead) (simp add: s')
  ultimately show ?thesis by (simp add: s')
qed

theorem work_error_ends_dispatch_witness:
  "ar_fault (ar_exec failing_os fragile_work
       (ar_exec_all failing_os fragile_work fresh_active fragile_history) ThreadStep)
     = Some (Uncaught (WorkException ''boom''))
   \<and> ar_promises (ar_exec failing_os fragile_work
       (ar_exec_all failing_os fragile_work fresh_active fragile_history) ThreadStep)
     = [Pending, Pending]
   \<and> ar_exec_all failing_os fragile_work (ar_exec failing_os fragile_work
       (ar_exec_all failing_os fragile_work fresh_active fragile_history) ThreadStep)
       [ThreadStep, CallNotify 3, ThreadStep]
     = ar_exec failing_os fragile_work
       (ar_exec_all failing_os fragile_work fresh_active fragile_history) ThreadStep"
  using work_error_ends_dispatch
    [where s = "ar_exec_all failing_os fragile_work fresh_active fragile_history"
       and os = failing_os and work = fragile_work and w = "- 1" and ?evs0.0 = fragile_history
       and d = 1 and p = 0 and e = "WorkException ''boom''"
       and s' = "ar_exec failing_os fragile_work
          (ar_exec_all failing_os fragile_work fresh_active fragile_history) ThreadStep"
       and evs = "[ThreadStep, CallNotify 3, ThreadStep]"]
  by (simp add: fragile_history_def fresh_active_def fragile_work_def ar_defs td_defs failing_os_def)

section \<open>First in, first out\<close>

lemma notified_append: "notified (evs @ evs') = notified evs @ notified evs'"
  by (induction evs rule: notified.induct) simp_all

lemma length_queued_from [simp]: "length (queued_from ds k) = length ds - k"
  by (simp add: queued_from_def)

lemma queued_from_end [simp]: "queued_from ds (length ds) = []"
  by (simp add: queued_from_def)

lemma map_fst_queued_from: "map fst (queued_from ds k) = drop k ds"
  by (simp add: queued_from_def)

lemma queued_from_snoc:
  "k \<le> length ds \<Longrightarrow> queued_from (ds @ [d]) k = queued_from ds k @ [(d, length ds)]"
  by (simp add: queued_from_def)

lemma queued_from_Cons:
  "k < length ds \<Longrightarrow> queued_from ds k = (ds ! k, k) # queued_from ds (Suc k)"
  by (simp add: queued_from_def Cons_nth_drop_Suc [symmetric] upt_conv_Cons)

lemma resolved_upto_snoc:
  "k \<le> length ds \<Longrightarrow> resolved_upto (ds @ [d]) k = resolved_upto ds k @ [Pending]"
  by (simp add: resolved_upto_def Suc_diff_le replicate_append_same)

lemma length_resolved_upto [simp]: "k \<le> length ds \<Longrightarrow> length (resolved_upto ds k) = length ds"
  by (simp add: resolved_upto_def)

lemma resolved_upto_nth:
  "k < length ds \<Longrightarrow> resolved_upto ds k ! k = Pending"
  by (simp add: resolved_upto_def nth_append)

lemma resolved_upto_update:
  assumes "k < length ds"
  shows "(resolved_upto ds k)[k := Ready (ds ! k)] = resolved_upto ds (Suc k)"
proof -
  from assms have "replicate (length ds - k) (Pending :: 'a promise)
      = Pending # replicate (length ds - Suc k) Pending"
    by (metis Suc_diff_Suc replicate_Suc)
  with assms show ?thesis
    by (simp add: resolved_upto_def list_update_append take_Suc_conv_app_nth)
qed

lemma resolved_upto_all [simp]: "resolved_upto ds (length ds) = map Ready ds"
  by (simp add: resolved_upto_def)

lemma fifo_inv_notify:
  assumes "fifo_inv ds k s"
  shows "fifo_inv (ds @ [d]) k (snd (ar_notify d s))"
proof -
  from assms have k: "k \<le> length ds" and pr: "ar_promises s = resolved_upto ds k"
    by (simp_all add: fifo_inv_def)
  from k pr have len: "length (ar_promises s) = length ds" by simp
  have tj: "ar_started (snd (ar_notify d s)) = ar_started s"
    by (simp add: ar_notify_def Let_def ar_started_def)
  show ?thesis
  proof (cases "ar_pc s")
    case (Working d' p)
    with assms k len tj show ?thesis
      by (simp add: fifo_inv_def ar_notify_def Let_def resolved_upto_snoc queued_from_snoc nth_append)
  next
    case Waiting
    with assms k len tj show ?thesis
      by (simp add: fifo_inv_def ar_notify_def Let_def resolved_upto_snoc queued_from_snoc)
  qed (use assms k len tj in
        \<open>simp_all add: fifo_inv_def ar_notify_def Let_def resolved_upto_snoc queued_from_snoc\<close>)
qed

lemma fifo_inv_take_task:
  assumes "fifo_inv ds k s" and "ar_tasks s = queued_from ds k" and "k < length ds"
  shows "fifo_inv ds k (ar_take_task s)"
    and "Suc (3 * length (ar_tasks (ar_take_task s)) + 3) = 3 * length (ar_tasks s) + 1"
    and "\<exists>d p. ar_pc (ar_take_task s) = Working d p"
proof -
  from assms(3) have q: "queued_from ds k = (ds ! k, k) # queued_from ds (Suc k)"
    by (rule queued_from_Cons)
  from assms(1) have run: "ar_running s" by (simp add: fifo_inv_def)
  from run assms(2) q
  have t: "ar_take_task s = s\<lparr>ar_tasks := queued_from ds (Suc k), ar_pc := Working (ds ! k) k\<rparr>"
    by (simp add: ar_take_task_def)
  from assms(1,3) show "fifo_inv ds k (ar_take_task s)"
    by (simp add: t fifo_inv_def ar_started_def)
  from assms(2,3) show "Suc (3 * length (ar_tasks (ar_take_task s)) + 3) = 3 * length (ar_tasks s) + 1"
    by (simp add: t)
  show "\<exists>d p. ar_pc (ar_take_task s) = Working d p" by (simp add: t)
qed

lemma fifo_inv_thread_code:
  assumes "fifo_inv ds k s" and "\<forall>w d. \<exists>w'. work w d = Inr (d, w')"
  shows "\<exists>k'. fifo_inv ds k' (ar_thread_code os work s)
           \<and> (if ar_pc s = Waiting then ar_thread_code os work s = s
               else Suc (steps_left (ar_thread_code os work s)) = steps_left s)"
proof (cases "ar_pc s")
  case NotStarted
  with assms show ?thesis by (simp add: fifo_inv_def)
next
  case Exited
  with assms show ?thesis by (simp add: fifo_inv_def)
next
  case Prologue
  from assms(1) obtain th where th: "ar_t s = Some th" "joinable th" and nc: "ar_caller s = NoCall"
    by (auto simp: fifo_inv_def ar_started_def split: option.splits)
  obtain th' eff where pro: "td_prologue os th = (th', eff)" by (cases "td_prologue os th")
  from td_prologue_joinable [OF pro] th have j: "joinable th'" by simp
  from Prologue th nc pro
  have st: "ar_thread_code os work s = s\<lparr>ar_t := Some th', ar_pc := LoopHead, ar_trace := ar_trace s @ eff\<rparr>"
    by (simp add: ar_thread_code_def ar_own_handle_def ar_set_own_handle_def)
  from assms(1) Prologue j have "fifo_inv ds k (ar_thread_code os work s)"
    by (simp add: st fifo_inv_def ar_started_def)
  moreover from Prologue have "Suc (steps_left (ar_thread_code os work s)) = steps_left s"
    by (simp add: st steps_left_def)
  ultimately show ?thesis using Prologue by auto
next
  case LoopHead
  from assms(1) have "ar_running s" by (simp add: fifo_inv_def)
  with LoopHead have st: "ar_thread_code os work s = s\<lparr>ar_pc := Locking\<rparr>"
    by (simp add: ar_thread_code_def)
  from assms(1) LoopHead have "fifo_inv ds k (ar_thread_code os work s)"
    by (simp add: st fifo_inv_def ar_started_def)
  moreover from LoopHead have "Suc (steps_left (ar_thread_code os work s)) = steps_left s"
    by (simp add: st steps_left_def)
  ultimately show ?thesis using LoopHead by auto
next
  case Locking
  from assms(1) Locking have q: "ar_tasks s = queued_from ds k" and k: "k \<le> length ds"
    by (simp_all add: fifo_inv_def)
  show ?thesis
  proof (cases "k = length ds")
    case True
    with q have e: "ar_tasks s = []" by simp
    with Locking have st: "ar_thread_code os work s = s\<lparr>ar_pc := Waiting\<rparr>"
      by (simp add: ar_thread_code_def)
    from assms(1) Locking True e have "fifo_inv ds k (ar_thread_code os work s)"
      by (simp add: st fifo_inv_def ar_started_def)
    moreover from Locking e have "Suc (steps_left (ar_thread_code os work s)) = steps_left s"
      by (simp add: st steps_left_def)
    ultimately show ?thesis using Locking by auto
  next
    case False
    with k have lt: "k < length ds" by simp
    with q have "ar_tasks s \<noteq> []" by (simp add: queued_from_Cons)
    with Locking have st: "ar_thread_code os work s = ar_take_task s"
      by (simp add: ar_thread_code_def)
    from fifo_inv_take_task [OF assms(1) q lt] Locking show ?thesis
      by (auto simp: st steps_left_def)
  qed
next
  case Waiting
  then show ?thesis using assms(1) by (auto simp: ar_thread_code_def)
next
  case Woken
  from assms(1) Woken have q: "ar_tasks s = queued_from ds k" and lt: "k < length ds"
    by (simp_all add: fifo_inv_def)
  from Woken have st: "ar_thread_code os work s = ar_take_task s"
    by (simp add: ar_thread_code_def)
  from fifo_inv_take_task [OF assms(1) q lt] Woken show ?thesis
    by (auto simp: st steps_left_def)
next
  case (Working d p)
  from assms(1) Working have lt: "k < length ds" and d: "d = ds ! k" and p: "p = k"
    and q: "ar_tasks s = queued_from ds (Suc k)" and pr: "ar_promises s = resolved_upto ds k"
    by (simp_all add: fifo_inv_def)
  from assms(2) obtain w' where w': "work (ar_members s) d = Inr (d, w')" by blast
  from lt pr have "k < length (ar_promises s)" "ar_promises s ! k = Pending"
    by (simp_all add: resolved_upto_nth)
  with Working w' p
  have st: "ar_thread_code os work s
      = s\<lparr>ar_members := w', ar_promises := (ar_promises s)[k := Ready d], ar_pc := LoopHead\<rparr>"
    by (simp add: ar_thread_code_def ar_set_value_def)
  from assms(1) lt d q pr have "fifo_inv ds (Suc k) (ar_thread_code os work s)"
    by (simp add: st fifo_inv_def ar_started_def resolved_upto_update)
  moreover from Working have "Suc (steps_left (ar_thread_code os work s)) = steps_left s"
    by (simp add: st steps_left_def)
  ultimately show ?thesis using Working by auto
qed

lemma fifo_inv_run:
  "fifo_inv [] 0 (ar_exec os work (ar_init os w) CallRun)"
  by (simp add: fifo_inv_def ar_exec_def ar_init_def ar_run_def ar_spawn_def td_defs
        ar_started_def resolved_upto_def queued_from_def)

lemma fifo_inv_exec:
  assumes "fifo_inv ds k s" and "\<forall>w d. \<exists>w'. work w d = Inr (d, w')" and "producer_or_thread ev"
  shows "\<exists>k'. fifo_inv (ds @ notified [ev]) k' (ar_exec os work s ev)"
proof -
  from assms(1) have live: "ar_fault s = None" "ar_caller s = NoCall"
    by (simp_all add: fifo_inv_def)
  show ?thesis
  proof (cases ev)
    case (CallNotify d)
    with live fifo_inv_notify [OF assms(1), of d] show ?thesis
      by (auto simp: ar_exec_def)
  next
    case ThreadStep
    with live fifo_inv_thread_code [OF assms(1,2), of os] show ?thesis
      by (auto simp: ar_exec_def ar_thread_step_NoCall)
  next
    case EarlyPrologue
    from assms(1) obtain th where "ar_t s = Some th"
      by (auto simp: fifo_inv_def ar_started_def split: option.splits)
    from ar_early_prologue_NoCall [OF live(2) this, of os] EarlyPrologue live assms(1)
    show ?thesis
      by (cases "ar_pc s = Prologue") (auto simp: ar_exec_def fifo_inv_def ar_started_def)
  qed (use assms(3) in simp_all)
qed

lemma fifo_inv_exec_all:
  assumes "\<forall>w d. \<exists>w'. work w d = Inr (d, w')" and "list_all producer_or_thread evs"
    and "fifo_inv ds k s"
  shows "\<exists>k'. fifo_inv (ds @ notified evs) k' (ar_exec_all os work s evs)"
  using assms(2,3)
proof (induction evs arbitrary: ds k s)
  case Nil
  then show ?case by (auto simp: ar_exec_all_def)
next
  case (Cons ev evs)
  from Cons.prems have ev: "producer_or_thread ev" and evs: "list_all producer_or_thread evs"
    by simp_all
  from fifo_inv_exec [OF Cons.prems(2) assms(1) ev]
  obtain k' where "fifo_inv (ds @ notified [ev]) k' (ar_exec os work s ev)" by blast
  from Cons.IH [OF evs this]
  obtain k'' where "fifo_inv ((ds @ notified [ev]) @ notified evs) k''
      (ar_exec_all os work (ar_exec os work s ev) evs)" by blast
  moreover have "notified (ev # evs) = notified [ev] @ notified evs"
    using notified_append [of "[ev]" evs] by simp
  ultimately show ?case by (auto simp: ar_exec_all_def)
qed

lemma fifo_inv_quiesce:
  assumes "\<forall>w d. \<exists>w'. work w d = Inr (d, w')"
    and "fifo_inv ds k s" and "steps_left s \<le> m"
  shows "fifo_inv ds (length ds) (ar_exec_all os work s (replicate m ThreadStep))"
  using assms(2,3)
proof (induction m arbitrary: k s)
  case 0
  then have "ar_pc s = Waiting"
    by (auto simp: fifo_inv_def steps_left_def split: apc.splits)
  with 0 show ?case by (auto simp: fifo_inv_def ar_exec_all_def)
next
  case (Suc m)
  from Suc.prems(1) have live: "ar_fault s = None" "ar_caller s = NoCall"
    by (simp_all add: fifo_inv_def)
  then have ex: "ar_exec os work s ThreadStep = ar_thread_code os work s"
    by (simp add: ar_exec_def ar_thread_step_NoCall)
  from fifo_inv_thread_code [OF Suc.prems(1) assms(1), of os]
  obtain k' where inv: "fifo_inv ds k' (ar_thread_code os work s)"
    and dec: "if ar_pc s = Waiting then ar_thread_code os work s = s
              else Suc (steps_left (ar_thread_code os work s)) = steps_left s"
    by blast
  have "steps_left (ar_thread_code os work s) \<le> m"
  proof (cases "ar_pc s = Waiting")
    case True
    then have "steps_left s = 0" by (simp add: steps_left_def)
    with True dec show ?thesis by simp
  next
    case False
    with dec Suc.prems(2) show ?thesis by simp
  qed
  from Suc.IH [OF inv this] show ?case by (simp add: ar_exec_all_def ex)
qed

lemma steps_left_bound: "steps_left s \<le> 3 * length (ar_tasks s) + 3"
  by (simp add: steps_left_def split: apc.splits)

text \<open>
  Submissions are answered in order as long as no wait ends without a notification.
  On an ActiveRunnable whose work step returns its input, after \<open>run()\<close> and any
  interleaving of submissions with steps of the thread: nothing has failed; the futures
  are numbered in the order of submission (the next \<open>notify\<close> returns the number of
  submissions made); the promises satisfied so far are those of the first \<open>k\<close>
  submissions, each holding the value submitted, and the queue holds the data of the
  later ones in the order of submission (but for the one the thread holds); and once
  the thread has taken three steps for each queued task and three more, every promise
  holds its value.
\<close>

lemma submissions_resolve_in_order_without_spurious_wakeup:
  assumes "\<forall>w d. \<exists>w'. work w d = Inr (d, w')"
    and "list_all producer_or_thread evs"
    and "s = ar_exec_all os work (ar_init os w0) (CallRun # evs)"
  shows "ar_fault s = None
       \<and> (\<exists>k \<le> length (notified evs).
             ar_promises s
               = map Ready (take k (notified evs)) @ replicate (length (notified evs) - k) Pending
             \<and> (map fst (ar_tasks s) = drop k (notified evs)
                  \<or> map fst (ar_tasks s) = drop (Suc k) (notified evs)))
       \<and> fst (ar_notify d s) = length (notified evs)
       \<and> (\<forall>m \<ge> 3 * length (ar_tasks s) + 3.
             ar_promises (ar_exec_all os work s (replicate m ThreadStep))
               = map Ready (notified evs))"
proof -
  have s: "s = ar_exec_all os work (ar_exec os work (ar_init os w0) CallRun) evs"
    by (simp add: assms(3) ar_exec_all_def)
  from fifo_inv_exec_all [OF assms(1,2) fifo_inv_run [of os work w0], of os]
  obtain k where inv: "fifo_inv (notified evs) k s"
    unfolding s by auto
  from inv have k: "k \<le> length (notified evs)"
    and pr: "ar_promises s = resolved_upto (notified evs) k"
    and ok: "ar_fault s = None"
    by (simp_all add: fifo_inv_def)
  from inv have q: "map fst (ar_tasks s) = drop k (notified evs)
      \<or> map fst (ar_tasks s) = drop (Suc k) (notified evs)"
    by (cases "ar_pc s") (simp_all add: fifo_inv_def map_fst_queued_from)
  from k pr have "fst (ar_notify d s) = length (notified evs)"
    by (simp add: ar_notify_def Let_def)
  moreover have "ar_promises (ar_exec_all os work s (replicate m ThreadStep))
      = map Ready (notified evs)" if "3 * length (ar_tasks s) + 3 \<le> m" for m
  proof -
    from that steps_left_bound [of s] have "steps_left s \<le> m" by simp
    from fifo_inv_quiesce [OF assms(1) inv this, of os] show ?thesis
      by (simp add: fifo_inv_def)
  qed
  ultimately show ?thesis using ok k pr q by (auto simp: resolved_upto_def)
qed

text \<open>
  \<^verbatim>\<open>test_ActiveRunnable.run_with_data_type_and_return_type\<close>: the six submissions
  \<open>0, \<dots>, 5\<close>, each awaited, are answered with \<open>0, \<dots>, 5\<close>.
\<close>

lemma replay_run_with_data_type_and_return_type:
  "notified test_schedule = [0, 1, 2, 3, 4, 5]
   \<and> ar_promises (ar_exec_all failing_os echo_work fresh_active (CallRun # test_schedule))
      = [Ready 0, Ready 1, Ready 2, Ready 3, Ready 4, Ready 5]
   \<and> ar_fault (ar_exec_all failing_os echo_work fresh_active (CallRun # test_schedule)) = None"
  by (simp add: test_schedule_def fresh_active_def echo_work_def ar_defs td_defs failing_os_def)

text \<open>
  C1 fails at a spurious wakeup. In the run of that test in which the wait after the
  first answer ends without a notification, the thread passes the test of the flag
  and reads \<^verbatim>\<open>_tasks[0]\<close> on the empty vector: of the six submissions
  \<open>0, \<dots>, 5\<close> the first is answered with \<open>0\<close>, and after the undefined access no
  other future is ever resolved.
\<close>

theorem spurious_wakeup_loses_submissions:
  "notified spurious_schedule = [0, 1, 2, 3, 4, 5]
   \<and> ar_promises (ar_exec_all failing_os echo_work fresh_active
        (CallRun # take 8 spurious_schedule)) = [Ready 0]
   \<and> ar_pc (ar_exec_all failing_os echo_work fresh_active
        (CallRun # take 8 spurious_schedule)) = Waiting
   \<and> ar_fault (ar_exec_all failing_os echo_work fresh_active
        (CallRun # take 8 spurious_schedule)) = None
   \<and> ar_fault (ar_exec_all failing_os echo_work fresh_active
        (CallRun # take 10 spurious_schedule)) = Some UndefinedBehaviour
   \<and> ar_fault (ar_exec_all failing_os echo_work fresh_active (CallRun # spurious_schedule))
      = Some UndefinedBehaviour
   \<and> ar_promises (ar_exec_all failing_os echo_work fresh_active (CallRun # spurious_schedule))
      = [Ready 0]"
  by (simp add: spurious_schedule_def fresh_active_def echo_work_def ar_defs td_defs
        failing_os_def)

section \<open>The unchecked access to the front of the queue\<close>

lemma ar_own_handle_NoCall: "ar_caller s = NoCall \<Longrightarrow> ar_own_handle s = ar_t s"
  by (simp add: ar_own_handle_def)

lemma ar_contract_inv_thread_code:
  assumes "ar_contract_inv s"
  shows "ar_contract_inv (ar_thread_code os work s)"
proof -
  from assms have nc: "ar_caller s = NoCall" and pinv: "ar_promises_inv s"
    and ub: "ar_fault s \<noteq> Some UndefinedBehaviour"
    and woken: "ar_pc s = Woken \<and> ar_running s \<longrightarrow> ar_tasks s \<noteq> []"
    by (simp_all add: ar_contract_inv_def)
  from assms obtain th where th: "ar_t s = Some th" "joinable th"
    by (auto simp: ar_contract_inv_def ar_started_def split: option.splits)
  note pinv' = ar_promises_inv_thread_code [OF pinv, of os work]
  have leave: "ar_leave_loop s = s\<lparr>ar_t := Some (td_epilogue th), ar_pc := Exited\<rparr>"
    using nc th by (simp add: ar_leave_loop_def ar_own_handle_def ar_set_own_handle_def)
  have take: "ar_contract_inv (ar_take_task s)"
    if pc: "ar_pc s = Woken \<or> ar_pc s = Locking" and ne: "ar_running s \<longrightarrow> ar_tasks s \<noteq> []"
  proof -
    from pc have "\<forall>d p. ar_pc s \<noteq> Working d p" by auto
    from ar_promises_inv_take_task [OF pinv this] have "ar_promises_inv (ar_take_task s)" .
    with nc th ub ne show ?thesis
      by (cases "ar_tasks s")
         (auto simp: ar_contract_inv_def ar_take_task_def leave ar_started_def td_epilogue_def)
  qed
  show ?thesis
  proof (cases "ar_pc s")
    case Prologue
    obtain th' eff where pro: "td_prologue os th = (th', eff)" by (cases "td_prologue os th")
    from td_prologue_joinable [OF pro] th have "joinable th'" by simp
    with Prologue nc th ub pro pinv' show ?thesis
      by (simp add: ar_contract_inv_def ar_thread_code_def ar_own_handle_def ar_set_own_handle_def
            ar_started_def)
  next
    case LoopHead
    with nc th ub pinv' show ?thesis
      by (simp add: ar_contract_inv_def ar_thread_code_def leave ar_started_def td_epilogue_def)
  next
    case Locking
    show ?thesis
    proof (cases "ar_tasks s = []")
      case True
      with Locking nc th ub pinv' show ?thesis
        by (simp add: ar_contract_inv_def ar_thread_code_def ar_started_def)
    next
      case False
      with Locking take show ?thesis by (simp add: ar_thread_code_def)
    qed
  next
    case Woken
    with woken take show ?thesis by (simp add: ar_thread_code_def)
  next
    case (Working d p)
    from pinv Working have "p < length (ar_promises s)" "ar_promises s ! p = Pending"
      by (simp_all add: ar_promises_inv_def)
    with Working nc th ub pinv' show ?thesis
      by (auto simp: ar_contract_inv_def ar_thread_code_def ar_set_value_def ar_started_def
          split: sum.splits prod.splits)
  qed (use assms in \<open>simp_all add: ar_thread_code_def\<close>)
qed

lemma ar_contract_inv_exec:
  assumes "ar_contract_inv s" and "in_contract ev"
  shows "ar_contract_inv (ar_exec os work s ev)"
proof (cases "ar_fault s \<noteq> None \<or> ar_caller s = Destroyed")
  case True
  with assms show ?thesis by (simp add: ar_exec_def)
next
  case False
  from assms(1) have pinv: "ar_promises_inv s" by (simp add: ar_contract_inv_def)
  note pinv' = ar_promises_inv_exec [OF pinv, of os work ev]
  from assms(1) obtain th where th: "ar_t s = Some th" "joinable th"
    by (auto simp: ar_contract_inv_def ar_started_def split: option.splits)
  show ?thesis
  proof (cases ev)
    case CallStop
    with False assms(1) pinv' show ?thesis
      by (auto simp: ar_exec_def ar_stop_def ar_contract_inv_def ar_started_def)
  next
    case (CallNotify d)
    with False assms(1) pinv' show ?thesis
      by (auto simp: ar_exec_def ar_notify_def Let_def ar_contract_inv_def ar_started_def)
  next
    case (CallSetPriority p)
    obtain ok th' eff where sp: "td_set_priority os p th = (ok, th', eff)"
      by (cases "td_set_priority os p th")
    from td_set_priority_cases [OF sp] th have "joinable th'" by simp
    with CallSetPriority False assms(1) pinv' th sp show ?thesis
      by (auto simp: ar_exec_def ar_set_priority_def Let_def ar_contract_inv_def ar_started_def)
  next
    case (CallSetName n)
    with False assms(1) pinv' th show ?thesis
      by (auto simp: ar_exec_def ar_set_name_def Let_def ar_contract_inv_def ar_started_def
            td_set_name_def)
  next
    case ThreadStep
    from assms(1) have "ar_caller s = NoCall" by (simp add: ar_contract_inv_def)
    with ThreadStep False ar_contract_inv_thread_code [OF assms(1)] show ?thesis
      by (simp add: ar_exec_def ar_thread_step_NoCall)
  next
    case EarlyPrologue
    from assms(1) have nc: "ar_caller s = NoCall" by (simp add: ar_contract_inv_def)
    from ar_early_prologue_NoCall [OF nc th(1), of os] EarlyPrologue False assms(1)
    show ?thesis
      by (cases "ar_pc s = Prologue")
         (auto simp: ar_exec_def ar_contract_inv_def ar_started_def ar_promises_inv_def)
  qed (use assms(2) in simp_all)
qed

lemma ar_contract_inv_exec_all:
  "ar_contract_inv s \<Longrightarrow> list_all in_contract evs \<Longrightarrow> ar_contract_inv (ar_exec_all os work s evs)"
  unfolding ar_exec_all_def
  by (induction evs arbitrary: s) (simp_all add: ar_contract_inv_exec)

lemma ar_contract_inv_run: "ar_contract_inv (ar_exec os work (ar_init os w) CallRun)"
  by (simp add: ar_contract_inv_def ar_exec_def ar_init_def ar_run_def ar_spawn_def td_defs
        ar_started_def ar_promises_inv_def)

text \<open>
  Without a spurious wakeup and without a second \<open>run()\<close>, the access is never made on an
  empty queue.
\<close>

lemma no_undefined_behaviour_without_spurious_wakeup:
  assumes "list_all in_contract evs"
  shows "ar_fault (ar_exec_all os work (ar_init os w) (CallRun # evs)) \<noteq> Some UndefinedBehaviour"
proof -
  have "ar_contract_inv (ar_exec_all os work (ar_exec os work (ar_init os w) CallRun) evs)"
    by (rule ar_contract_inv_exec_all [OF ar_contract_inv_run assms])
  then show ?thesis by (simp add: ar_contract_inv_def ar_exec_all_def)
qed

text \<open>
  C10, at a spurious wakeup. The thread waits on the empty queue; the wait ends although
  nobody notified; the flag is true, so the thread goes on to \<^verbatim>\<open>_tasks[0]\<close> on the
  empty vector. The same happens without a spurious wakeup when \<open>run()\<close> is called again
  after \<open>stop()\<close> has ended the wait and before the thread has tested the flag.
\<close>

theorem spurious_wakeup_reads_empty_queue:
  "ar_pc (ar_exec_all failing_os echo_work fresh_active
      [CallRun, ThreadStep, ThreadStep, ThreadStep, SpuriousWake]) = Woken
   \<and> ar_running (ar_exec_all failing_os echo_work fresh_active
      [CallRun, ThreadStep, ThreadStep, ThreadStep, SpuriousWake])
   \<and> ar_tasks (ar_exec_all failing_os echo_work fresh_active
      [CallRun, ThreadStep, ThreadStep, ThreadStep, SpuriousWake]) = []
   \<and> ar_fault (ar_exec_all failing_os echo_work fresh_active
      [CallRun, ThreadStep, ThreadStep, ThreadStep, SpuriousWake, ThreadStep])
       = Some UndefinedBehaviour
   \<and> ar_fault (ar_exec_all failing_os echo_work fresh_active
      [CallRun, ThreadStep, ThreadStep, ThreadStep, CallStop, CallRun, ThreadStep])
       = Some UndefinedBehaviour"
  by (simp add: fresh_active_def echo_work_def ar_defs td_defs failing_os_def)

section \<open>The repository's tests, replayed\<close>

text \<open>
  \<^verbatim>\<open>test_ActiveRunnable.run_with_return_type\<close>: five submissions, each awaited, give
  \<open>0, 1, 2, 3, 4\<close>; the counter is \<open>5\<close>; after \<open>stop()\<close> the future of \<open>run()\<close> is
  satisfied and \<open>status()\<close> is false.
\<close>

lemma replay_run_with_return_type:
  "ar_promises (ar_exec_all failing_os counting_work (ar_init failing_os 0) counting_schedule)
     = [Ready 0, Ready 1, Ready 2, Ready 3, Ready 4]
   \<and> ar_members (ar_exec_all failing_os counting_work (ar_init failing_os 0) counting_schedule) = 5
   \<and> map_option td_promise
        (ar_t (ar_exec_all failing_os counting_work (ar_init failing_os 0) counting_schedule))
       = Some (Ready ())
   \<and> ar_status (ar_exec_all failing_os counting_work (ar_init failing_os 0) counting_schedule)
       = False"
  by (simp add: counting_schedule_def counting_work_def ar_defs td_defs failing_os_def)

text \<open>
  \<^verbatim>\<open>test_Runnable.run\<close>: the worker is running after \<open>run()\<close>, the work step has set
  the flag, and after \<open>stop()\<close> and the wait for the future \<open>status()\<close> is false.
\<close>

lemma replay_runnable_run:
  "r_status (r_exec_all failing_os flag_work (r_init failing_os False)
      [RCallRun, RThreadStep, RThreadStep, RThreadStep])
   \<and> r_members (r_exec_all failing_os flag_work (r_init failing_os False)
      [RCallRun, RThreadStep, RThreadStep, RThreadStep, RCallStop, RThreadStep])
   \<and> \<not> r_status (r_exec_all failing_os flag_work (r_init failing_os False)
      [RCallRun, RThreadStep, RThreadStep, RThreadStep, RCallStop, RThreadStep])
   \<and> map_option td_promise (r_t (r_exec_all failing_os flag_work (r_init failing_os False)
      [RCallRun, RThreadStep, RThreadStep, RThreadStep, RCallStop, RThreadStep]))
       = Some (Ready ())"
  by (simp add: flag_work_def r_defs td_defs failing_os_def)

end
